theory Spec2Isabelle
  imports Main "HOL-Library.AList" "HOL-Library.Sublist"
begin

section \<open>JavaScript values\<close>

text \<open>
  The values the store and the two utilities handle. A function is a reference
  \<open>Fn f\<close>: JavaScript compares functions by identity, and the store keeps listeners
  by reference. \<open>Obj\<close> is a plain object (an object literal), \<open>Inst\<close> an instance
  of a class (an object whose prototype is not \<open>Object.prototype\<close>), \<open>Arr\<close> an
  array. Properties are kept in insertion order.
\<close>

datatype jsval =
    Undefined
  | Null
  | Boolean bool
  | Num int
  | Str string
  | Arr "jsval list"
  | Obj "(string \<times> jsval) list"
  | Inst "(string \<times> jsval) list"
  | Fn nat

text \<open>The \<open>typeof\<close> operator.\<close>

fun typeof :: "jsval \<Rightarrow> string" where
  "typeof Undefined = ''undefined''"
| "typeof Null = ''object''"
| "typeof (Boolean b) = ''boolean''"
| "typeof (Num n) = ''number''"
| "typeof (Str s) = ''string''"
| "typeof (Arr xs) = ''object''"
| "typeof (Obj fs) = ''object''"
| "typeof (Inst fs) = ''object''"
| "typeof (Fn f) = ''function''"

text \<open>
  \<open>isPlainObject\<close> is imported from lodash: true of an object created by an object
  literal or \<open>Object.create(null)\<close>, false of arrays, class instances, functions,
  \<open>null\<close> and primitives.
\<close>

fun isPlainObject :: "jsval \<Rightarrow> bool" where
  "isPlainObject (Obj fs) = True"
| "isPlainObject v = False"

text \<open>Decimal digits of an array index, as \<open>Object.keys\<close> prints them.\<close>

fun string_of_nat :: "nat \<Rightarrow> string" where
  "string_of_nat n =
     (if n < 10 then [''0123456789'' ! n]
      else string_of_nat (n div 10) @ [''0123456789'' ! (n mod 10)])"

declare string_of_nat.simps [simp del]

text \<open>The own enumerable properties of a value, in the order of their creation.\<close>

fun own_props :: "jsval \<Rightarrow> (string \<times> jsval) list" where
  "own_props (Obj fs) = fs"
| "own_props (Inst fs) = fs"
| "own_props (Arr xs) = zip (map string_of_nat [0..<length xs]) xs"
| "own_props v = []"

text \<open>
  The array index a property key denotes, if it is one: the key is the decimal numeral,
  with no leading zero, of an integer below \<open>2^32 - 1\<close>.
\<close>

definition digit_value :: "char \<Rightarrow> nat option" where
  "digit_value c = map_of [(CHR ''0'', 0), (CHR ''1'', 1), (CHR ''2'', 2), (CHR ''3'', 3), (CHR ''4'', 4),
     (CHR ''5'', 5), (CHR ''6'', 6), (CHR ''7'', 7), (CHR ''8'', 8), (CHR ''9'', 9)] c"

fun parse_digits :: "string \<Rightarrow> nat \<Rightarrow> nat option" where
  "parse_digits [] acc = Some acc"
| "parse_digits (c # cs) acc =
     (case digit_value c of None \<Rightarrow> None | Some d \<Rightarrow> parse_digits cs (10 * acc + d))"

definition array_index :: "string \<Rightarrow> nat option" where
  "array_index key =
     (case parse_digits key 0 of
        None \<Rightarrow> None
      | Some n \<Rightarrow> if key \<noteq> [] \<and> string_of_nat n = key \<and> n < 4294967295 then Some n else None)"

text \<open>
  The order in which \<open>Object.keys\<close> lists the keys of an object: the array indices
  first, in ascending numeric order, then the other keys in the order of their creation.
\<close>

definition key_order :: "string list \<Rightarrow> string list" where
  "key_order ks =
     sort_key (\<lambda>k. the (array_index k)) (filter (\<lambda>k. array_index k \<noteq> None) ks) @
     filter (\<lambda>k. array_index k = None) ks"

definition object_keys :: "jsval \<Rightarrow> string list" where
  "object_keys v = key_order (map fst (own_props v))"

text \<open>Property access \<open>v[key]\<close> on an object: \<open>undefined\<close> when the key is absent.\<close>

definition get_prop :: "jsval \<Rightarrow> string \<Rightarrow> jsval" where
  "get_prop v key = (case map_of (own_props v) key of None \<Rightarrow> Undefined | Some x \<Rightarrow> x)"

section \<open>Errors and results\<close>

text \<open>
  The source throws \<open>new Error(message)\<close> everywhere, and \<open>TypeError\<close> in the
  observable adapter; an error is told from another by its message.
\<close>

datatype error = Error string | TypeError string

text \<open>
  The result of a call that runs in a world \<open>'w\<close> of mutable state: it returns a value,
  throws, or does not return within the fuel it was given. The world comes back in both
  the first cases: what a callee wrote before it threw stays written.
\<close>

datatype ('a, 'w) res = Done 'a 'w | Threw error 'w | OutOfFuel

text \<open>A JavaScript function: called with its argument list, in a world.\<close>

type_synonym 'w jsfun = "jsval list \<Rightarrow> 'w \<Rightarrow> (jsval, 'w) res"

text \<open>\<open>k(c)\<close>: evaluate the argument \<open>c\<close>, then call \<open>k\<close> with its value.\<close>

definition and_then :: "('a, 'w) res \<Rightarrow> ('a \<Rightarrow> 'w \<Rightarrow> ('b, 'w) res) \<Rightarrow> ('b, 'w) res" where
  "and_then r k = (case r of Done v w \<Rightarrow> k v w | Threw e w \<Rightarrow> Threw e w | OutOfFuel \<Rightarrow> OutOfFuel)"

text \<open>A function with no effect: it returns \<open>f args\<close> and leaves the world alone.\<close>

definition pure_fn :: "(jsval list \<Rightarrow> jsval) \<Rightarrow> 'w jsfun" where
  "pure_fn f = (\<lambda>args w. Done (f args) w)"

section \<open>compose (src/compose.js)\<close>

text \<open>\<open>arg => arg\<close>: the first argument, \<open>undefined\<close> when called with none.\<close>

definition first_arg :: "jsval list \<Rightarrow> jsval" where
  "first_arg args = (case args of [] \<Rightarrow> Undefined | x # _ \<Rightarrow> x)"

text \<open>
  \<open>funcs.reduce((a, b) => (...args) => a(b(...args)))\<close>: with no initial value,
  \<open>reduce\<close> starts from \<open>funcs[0]\<close> and folds the rest from the left.
\<close>

definition compose :: "'w jsfun list \<Rightarrow> 'w jsfun" where
  "compose funcs =
     (if length funcs = 0 then (\<lambda>args w. Done (first_arg args) w)
      else if length funcs = 1 then funcs ! 0
      else foldl (\<lambda>a b. (\<lambda>args w. and_then (b args w) (\<lambda>v. a [v]))) (hd funcs) (tl funcs))"

section \<open>bindActionCreators\<close>

definition bindActionCreator :: "'w jsfun \<Rightarrow> 'w jsfun \<Rightarrow> 'w jsfun" where
  "bindActionCreator actionCreator dispatch =
     (\<lambda>args w. and_then (actionCreator args w) (\<lambda>v. dispatch [v]))"

text \<open>
  What \<open>bindActionCreators\<close> returns: one bound function, or a fresh object of bound
  functions. \<open>F\<close> gives the body of each function reference.
\<close>

datatype 'w bound = BoundFunction "'w jsfun" | BoundObject "(string \<times> 'w jsfun) list"

definition bind_error :: "jsval \<Rightarrow> error" where
  "bind_error actionCreators = Error
     (''bindActionCreators expected an object or a function, instead received '' @
      (if actionCreators = Null then ''null'' else typeof actionCreators) @ ''. '' @
      ''Did you write \"import ActionCreators from\" instead of \"import * as ActionCreators from\"?'')"

text \<open>The loop over \<open>keys\<close>, \<open>acc\<close> being \<open>boundActionCreators\<close>.\<close>

fun bind_keys :: "(nat \<Rightarrow> 'w jsfun) \<Rightarrow> jsval \<Rightarrow> 'w jsfun \<Rightarrow> string list \<Rightarrow>
    (string \<times> 'w jsfun) list \<Rightarrow> (string \<times> 'w jsfun) list" where
  "bind_keys F actionCreators dispatch [] acc = acc"
| "bind_keys F actionCreators dispatch (key # keys) acc =
     (case get_prop actionCreators key of
        Fn f \<Rightarrow> bind_keys F actionCreators dispatch keys
                  (AList.update key (bindActionCreator (F f) dispatch) acc)
      | _ \<Rightarrow> bind_keys F actionCreators dispatch keys acc)"

definition bindActionCreators :: "(nat \<Rightarrow> 'w jsfun) \<Rightarrow> jsval \<Rightarrow> 'w jsfun \<Rightarrow> error + 'w bound" where
  "bindActionCreators F actionCreators dispatch =
     (case actionCreators of
        Fn f \<Rightarrow> Inr (BoundFunction (bindActionCreator (F f) dispatch))
      | _ \<Rightarrow>
        if typeof actionCreators \<noteq> ''object'' \<or> actionCreators = Null
        then Inl (bind_error actionCreators)
        else Inr (BoundObject
                (bind_keys F actionCreators dispatch (object_keys actionCreators) [])))"

text \<open>The error classes of the specification, by the message thrown.\<close>

definition ConfigurationError :: "error \<Rightarrow> bool" where
  "ConfigurationError e \<longleftrightarrow>
     e = Error ''Expected the enhancer to be a function.'' \<or>
     e = Error ''Expected the reducer to be a function.'' \<or>
     e = Error ''Expected the nextReducer to be a function.'' \<or>
     (\<exists>v. e = bind_error v)"

section \<open>The store (createStore)\<close>

subsection \<open>Callbacks\<close>

text \<open>
  Reducers and listeners are the caller's functions, and they can call back into the
  store that calls them. The body of a callback is a program over the store's interface:
  it returns or throws, and on the way it may read the state, dispatch, subscribe, call
  an \<open>unsubscribe\<close> closure it holds, replace the reducer, and catch what a part of it
  throws. An environment gives the body of every function reference for the arguments it
  is called with: a reducer is called with \<open>[state, action]\<close>, a listener with \<open>[]\<close>.
\<close>

datatype prog =
    Return jsval
  | Throw error
  | GetState "jsval \<Rightarrow> prog"
  | Dispatch jsval "jsval \<Rightarrow> prog"
  | Subscribe jsval "nat \<Rightarrow> prog"
  | Unsubscribe nat prog
  | ReplaceReducer jsval prog
  | TryCatch prog "jsval \<Rightarrow> prog" "error \<Rightarrow> prog"

type_synonym env = "nat \<Rightarrow> jsval list \<Rightarrow> prog"

subsection \<open>The state of one store\<close>

text \<open>
  The variables \<open>createStore\<close> closes over. \<open>currentListeners\<close> and
  \<open>nextListeners\<close> are references to arrays: \<open>arrays\<close> is the heap that holds the
  arrays, and addresses below \<open>allocated\<close> are in use. \<open>closures\<close> holds the
  \<open>unsubscribe\<close> closures \<open>subscribe\<close> has returned, each with the \<open>listener\<close> and
  the \<open>isSubscribed\<close> variable it captured; a closure is named by its index.

  Two fields observe the run and are read by no operation: \<open>trace\<close> records each
  read of \<open>isDispatching\<close> in \<open>dispatch\<close> and each call \<open>listener()\<close> of a
  notification pass, and \<open>passes\<close> numbers the passes.
\<close>

datatype frame = InReducer | InListener nat

datatype event =
    FlagRead "frame list" bool
  | Invoked nat nat

record store =
  currentReducer :: nat
  currentState :: jsval
  currentListeners :: nat
  nextListeners :: nat
  isDispatching :: bool
  arrays :: "nat \<Rightarrow> nat list"
  allocated :: nat
  closures :: "(nat \<times> bool) list"
  passes :: nat
  trace :: "event list"

definition ActionTypes_INIT :: string where
  "ActionTypes_INIT = ''@@redux/INIT''"

definition init_action :: jsval where
  "init_action = Obj [(''type'', Str ActionTypes_INIT)]"

definition ensureCanMutateNextListeners :: "store \<Rightarrow> store" where
  "ensureCanMutateNextListeners w =
     (if nextListeners w = currentListeners w
      then w\<lparr>nextListeners := allocated w,
             arrays := (arrays w)(allocated w := arrays w (currentListeners w)),
             allocated := Suc (allocated w)\<rparr>
      else w)"

definition getState :: "store \<Rightarrow> jsval" where
  "getState w = currentState w"

text \<open>\<open>subscribe\<close> returns the new closure (its index) and the store.\<close>

definition subscribe :: "store \<Rightarrow> jsval \<Rightarrow> error + nat \<times> store" where
  "subscribe w listener =
     (case listener of
        Fn f \<Rightarrow>
          let w1 = ensureCanMutateNextListeners w;
              w2 = w1\<lparr>arrays := (arrays w1)(nextListeners w1 := arrays w1 (nextListeners w1) @ [f])\<rparr>
          in Inr (length (closures w2), w2\<lparr>closures := closures w2 @ [(f, True)]\<rparr>)
      | _ \<Rightarrow> Inl (Error ''Expected listener to be a function.''))"

text \<open>\<open>Array.prototype.indexOf\<close>: the first index of \<open>x\<close>, or \<open>-1\<close>.\<close>

fun indexOf :: "'a list \<Rightarrow> 'a \<Rightarrow> int" where
  "indexOf [] x = - 1"
| "indexOf (y # ys) x =
     (if y = x then 0 else (let r = indexOf ys x in if r < 0 then - 1 else r + 1))"

text \<open>
  \<open>xs.splice(index, 1)\<close>: a negative start counts from the end of the array, so
  \<open>splice(-1, 1)\<close> removes the last element.
\<close>

definition splice1 :: "int \<Rightarrow> 'a list \<Rightarrow> 'a list" where
  "splice1 index xs =
     (let len = int (length xs);
          start = (if index < 0 then max (len + index) 0 else min index len)
      in take (nat start) xs @ drop (Suc (nat start)) xs)"

text \<open>
  The closure \<open>unsubscribe\<close> with index \<open>h\<close>. Calling a closure that was never
  returned is calling \<open>undefined\<close>.
\<close>

definition unsubscribe :: "store \<Rightarrow> nat \<Rightarrow> error + store" where
  "unsubscribe w h =
     (if h < length (closures w) then
        (let listener = fst (closures w ! h); isSubscribed = snd (closures w ! h) in
         if \<not> isSubscribed then Inr w
         else
           let w1 = w\<lparr>closures := (closures w)[h := (listener, False)]\<rparr>;
               w2 = ensureCanMutateNextListeners w1;
               index = indexOf (arrays w2 (nextListeners w2)) listener
           in Inr (w2\<lparr>arrays := (arrays w2)
                        (nextListeners w2 := splice1 index (arrays w2 (nextListeners w2)))\<rparr>))
      else Inl (TypeError ''unsubscribe is not a function''))"

subsection \<open>dispatch, the notification pass, and the callbacks they run\<close>

text \<open>
  \<open>dispatch\<close> calls the reducer and the listeners, and these call \<open>dispatch\<close>: the
  three are one recursion, on the fuel. \<open>exec n E c\<close> makes the call \<open>c\<close> with fuel
  \<open>n\<close>; every call costs one unit, and a call with none left does not return.
  \<^item> \<open>DispatchCall st w action\<close> is \<open>dispatch(action)\<close> in store \<open>w\<close>, called with the
    callbacks \<open>st\<close> on the call stack (innermost first);
  \<^item> \<open>NotifyLoop st p l i w\<close> is the loop \<open>for (i; i < listeners.length; i++)\<close> of
    \<open>dispatch\<close> from index \<open>i\<close>, \<open>listeners\<close> being the array at address \<open>l\<close> and
    \<open>p\<close> the number of the pass;
  \<^item> \<open>RunBody st w c\<close> runs the body \<open>c\<close> of a callback.
\<close>

datatype call =
    DispatchCall "frame list" store jsval
  | NotifyLoop "frame list" nat nat nat store
  | RunBody "frame list" store prog

primrec exec :: "nat \<Rightarrow> env \<Rightarrow> call \<Rightarrow> (jsval, store) res" where
  "exec 0 E c = OutOfFuel"
| "exec (Suc n) E c =
    (case c of
       DispatchCall st w action \<Rightarrow>
         (if \<not> isPlainObject action then
            Threw (Error ''Actions must be plain objects. Use custom middleware for async actions.'') w
          else if typeof (get_prop action ''type'') = ''undefined'' then
            Threw (Error ''Actions may not have an undefined \"type\" property. Have you misspelled a constant?'') w
          else
            let w0 = w\<lparr>trace := trace w @ [FlagRead st (isDispatching w)]\<rparr> in
            if isDispatching w0 then Threw (Error ''Reducers may not dispatch actions.'') w0
            else
              (case exec n E (RunBody (InReducer # st) (w0\<lparr>isDispatching := True\<rparr>)
                               (E (currentReducer w0) [currentState w0, action])) of
                 OutOfFuel \<Rightarrow> OutOfFuel
               | Threw e w1 \<Rightarrow> Threw e (w1\<lparr>isDispatching := False\<rparr>)
               | Done v w1 \<Rightarrow>
                   let w2 = w1\<lparr>currentState := v, isDispatching := False\<rparr>;
                       w3 = w2\<lparr>currentListeners := nextListeners w2, passes := Suc (passes w2)\<rparr>
                   in (case exec n E (NotifyLoop st (passes w2) (currentListeners w3) 0 w3) of
                         OutOfFuel \<Rightarrow> OutOfFuel
                       | Threw e w4 \<Rightarrow> Threw e w4
                       | Done u w4 \<Rightarrow> Done action w4)))
     | NotifyLoop st p l i w \<Rightarrow>
         (if i < length (arrays w l) then
            let listener = arrays w l ! i;
                w1 = w\<lparr>trace := trace w @ [Invoked p listener]\<rparr>
            in (case exec n E (RunBody (InListener listener # st) w1 (E listener [])) of
                  OutOfFuel \<Rightarrow> OutOfFuel
                | Threw e w2 \<Rightarrow> Threw e w2
                | Done u w2 \<Rightarrow> exec n E (NotifyLoop st p l (i + 1) w2))
          else Done Undefined w)
     | RunBody st w b \<Rightarrow>
         (case b of
            Return v \<Rightarrow> Done v w
          | Throw e \<Rightarrow> Threw e w
          | GetState k \<Rightarrow> exec n E (RunBody st w (k (getState w)))
          | Dispatch action k \<Rightarrow>
              (case exec n E (DispatchCall st w action) of
                 OutOfFuel \<Rightarrow> OutOfFuel
               | Threw e w1 \<Rightarrow> Threw e w1
               | Done v w1 \<Rightarrow> exec n E (RunBody st w1 (k v)))
          | Subscribe listener k \<Rightarrow>
              (case subscribe w listener of
                 Inl e \<Rightarrow> Threw e w
               | Inr (h, w1) \<Rightarrow> exec n E (RunBody st w1 (k h)))
          | Unsubscribe h b1 \<Rightarrow>
              (case unsubscribe w h of
                 Inl e \<Rightarrow> Threw e w
               | Inr w1 \<Rightarrow> exec n E (RunBody st w1 b1))
          | ReplaceReducer nextReducer b1 \<Rightarrow>
              (case nextReducer of
                 Fn r \<Rightarrow>
                   (case exec n E (DispatchCall st (w\<lparr>currentReducer := r\<rparr>) init_action) of
                      OutOfFuel \<Rightarrow> OutOfFuel
                    | Threw e w1 \<Rightarrow> Threw e w1
                    | Done v w1 \<Rightarrow> exec n E (RunBody st w1 b1))
               | _ \<Rightarrow> Threw (Error ''Expected the nextReducer to be a function.'') w)
          | TryCatch b1 k handler \<Rightarrow>
              (case exec n E (RunBody st w b1) of
                 OutOfFuel \<Rightarrow> OutOfFuel
               | Threw e w1 \<Rightarrow> exec n E (RunBody st w1 (handler e))
               | Done v w1 \<Rightarrow> exec n E (RunBody st w1 (k v)))))"

definition dispatch :: "nat \<Rightarrow> env \<Rightarrow> frame list \<Rightarrow> store \<Rightarrow> jsval \<Rightarrow> (jsval, store) res" where
  "dispatch n E st w action = exec n E (DispatchCall st w action)"

definition notify :: "nat \<Rightarrow> env \<Rightarrow> frame list \<Rightarrow> nat \<Rightarrow> nat \<Rightarrow> nat \<Rightarrow> store \<Rightarrow> (jsval, store) res" where
  "notify n E st p l i w = exec n E (NotifyLoop st p l i w)"

definition run :: "nat \<Rightarrow> env \<Rightarrow> frame list \<Rightarrow> store \<Rightarrow> prog \<Rightarrow> (jsval, store) res" where
  "run n E st w b = exec n E (RunBody st w b)"

text \<open>
  \<open>replaceReducer\<close>, as a caller outside any callback calls it. The observable
  adapter (\<open>observable\<close>) is built on \<open>subscribe\<close> and \<open>getState\<close> alone and is left
  out: its \<open>observeState\<close> is one more listener.
\<close>

definition replaceReducer :: "nat \<Rightarrow> env \<Rightarrow> frame list \<Rightarrow> store \<Rightarrow> jsval \<Rightarrow> (jsval, store) res" where
  "replaceReducer n E st w nextReducer =
     (case nextReducer of
        Fn r \<Rightarrow>
          (case dispatch n E st (w\<lparr>currentReducer := r\<rparr>) init_action of
             OutOfFuel \<Rightarrow> OutOfFuel
           | Threw e w1 \<Rightarrow> Threw e w1
           | Done v w1 \<Rightarrow> Done Undefined w1)
      | _ \<Rightarrow> Threw (Error ''Expected the nextReducer to be a function.'') w)"

subsection \<open>createStore\<close>

text \<open>
  The variables as \<open>createStore\<close> initialises them: \<open>nextListeners\<close> is the same
  array as \<open>currentListeners\<close>, the empty array at address 0.
\<close>

definition init_store :: "nat \<Rightarrow> jsval \<Rightarrow> store" where
  "init_store reducer preloadedState =
     \<lparr>currentReducer = reducer, currentState = preloadedState,
      currentListeners = 0, nextListeners = 0, isDispatching = False,
      arrays = (\<lambda>a. []), allocated = 1, closures = [], passes = 0, trace = []\<rparr>"

text \<open>
  What \<open>createStore\<close> gives: a store, the call \<open>enhancer(createStore)(reducer,
  preloadedState)\<close> it hands the construction to (the enhancer is the caller's code, and
  what it returns is its own), an error thrown, or no return.
\<close>

datatype created =
    Created store
  | Delegated nat jsval jsval
  | Failed error
  | Unfinished

definition createStore :: "nat \<Rightarrow> env \<Rightarrow> jsval \<Rightarrow> jsval \<Rightarrow> jsval \<Rightarrow> created" where
  "createStore n E reducer preloadedState0 enhancer0 =
     (let swap = (typeof preloadedState0 = ''function'' \<and> typeof enhancer0 = ''undefined'');
          enhancer = (if swap then preloadedState0 else enhancer0);
          preloadedState = (if swap then Undefined else preloadedState0)
      in
        if typeof enhancer \<noteq> ''undefined'' then
          (case enhancer of
             Fn e \<Rightarrow> Delegated e reducer preloadedState
           | _ \<Rightarrow> Failed (Error ''Expected the enhancer to be a function.''))
        else
          (case reducer of
             Fn r \<Rightarrow>
               (case dispatch n E [] (init_store r preloadedState) init_action of
                  OutOfFuel \<Rightarrow> Unfinished
                | Threw e w \<Rightarrow> Failed e
                | Done v w \<Rightarrow> Created w)
           | _ \<Rightarrow> Failed (Error ''Expected the reducer to be a function.'')))"

text \<open>The error classes of the specification, by the message thrown.\<close>

definition InvalidActionError :: "error \<Rightarrow> bool" where
  "InvalidActionError e \<longleftrightarrow>
     e = Error ''Actions must be plain objects. Use custom middleware for async actions.'' \<or>
     e = Error ''Actions may not have an undefined \"type\" property. Have you misspelled a constant?''"

definition ReentrancyError :: "error \<Rightarrow> bool" where
  "ReentrancyError e \<longleftrightarrow> e = Error ''Reducers may not dispatch actions.''"

subsection \<open>What the properties speak of\<close>

text \<open>The store a call starts in, and the store a call that came back left.\<close>

fun store_of :: "call \<Rightarrow> store" where
  "store_of (DispatchCall st w action) = w"
| "store_of (NotifyLoop st p l i w) = w"
| "store_of (RunBody st w b) = w"

fun final :: "('a, 'w) res \<Rightarrow> 'w option" where
  "final (Done v w) = Some w"
| "final (Threw e w) = Some w"
| "final OutOfFuel = None"

text \<open>The "next" registry: the array \<open>subscribe\<close> and \<open>unsubscribe\<close> write to.\<close>

definition registry :: "store \<Rightarrow> nat list" where
  "registry w = arrays w (nextListeners w)"

text \<open>
  The array at \<open>l\<close> is out of the reach of \<open>subscribe\<close> and \<open>unsubscribe\<close>: it
  is in use, and it is the "next" array only while it is the "current" one too.
\<close>

definition protected :: "nat \<Rightarrow> store \<Rightarrow> bool" where
  "protected l w \<longleftrightarrow> l < allocated w \<and> (nextListeners w = l \<longrightarrow> currentListeners w = l)"

text \<open>The listeners pass \<open>p\<close> called, in the order of the calls.\<close>

fun pass_events :: "nat \<Rightarrow> event list \<Rightarrow> nat list" where
  "pass_events p [] = []"
| "pass_events p (Invoked q f # es) = (if q = p then f # pass_events p es else pass_events p es)"
| "pass_events p (FlagRead st b # es) = pass_events p es"

text \<open>Closure \<open>h\<close> was returned for listener \<open>f\<close> and has not been called.\<close>

definition live :: "store \<Rightarrow> nat \<Rightarrow> nat \<Rightarrow> bool" where
  "live w h f \<longleftrightarrow> h < length (closures w) \<and> closures w ! h = (f, True)"

text \<open>
  A store as \<open>createStore\<close> and its operations leave it: both arrays are in use, a
  listener stands in the "next" registry once for each closure of it not yet called, and
  the passes of the trace are numbered below \<open>passes\<close>.
\<close>

definition wf :: "store \<Rightarrow> bool" where
  "wf w \<longleftrightarrow>
     currentListeners w < allocated w \<and> nextListeners w < allocated w \<and>
     (\<forall>f. count_list (registry w) f = count_list (closures w) (f, True)) \<and>
     (\<forall>q f. Invoked q f \<in> set (trace w) \<longrightarrow> q < passes w)"

text \<open>The events a call appended to the trace.\<close>

definition new_events :: "store \<Rightarrow> store \<Rightarrow> event list" where
  "new_events w w' = drop (length (trace w)) (trace w')"

subsection \<open>Dispatching from outside\<close>

text \<open>An action \<open>dispatch\<close> accepts: a plain object whose \<open>type\<close> is not \<open>undefined\<close>.\<close>

definition valid_action :: "jsval \<Rightarrow> bool" where
  "valid_action action \<longleftrightarrow> isPlainObject action \<and> typeof (get_prop action ''type'') \<noteq> ''undefined''"

text \<open>
  The call \<open>currentReducer(currentState, action)\<close> as \<open>dispatch\<close> makes it once it has
  read the flag as false, and the store in which the notification pass then starts
  (\<open>w1\<close> is the store the reducer left, \<open>v\<close> what it returned).
\<close>

definition reducer_call :: "nat \<Rightarrow> env \<Rightarrow> frame list \<Rightarrow> store \<Rightarrow> jsval \<Rightarrow> (jsval, store) res" where
  "reducer_call n E st w action =
     run n E (InReducer # st) (w\<lparr>trace := trace w @ [FlagRead st False], isDispatching := True\<rparr>)
       (E (currentReducer w) [currentState w, action])"

definition committed :: "store \<Rightarrow> jsval \<Rightarrow> store" where
  "committed w1 v = w1\<lparr>currentState := v, isDispatching := False,
     currentListeners := nextListeners w1, passes := Suc (passes w1)\<rparr>"

text \<open>
  A caller outside any callback dispatches the actions of a list in order and reads
  \<open>getState()\<close> after each; it stops at the first dispatch that throws.
\<close>

fun dispatch_all :: "nat \<Rightarrow> env \<Rightarrow> store \<Rightarrow> jsval list \<Rightarrow> (jsval list, store) res" where
  "dispatch_all n E w [] = Done [] w"
| "dispatch_all n E w (a # as) =
     (case dispatch n E [] w a of
        OutOfFuel \<Rightarrow> OutOfFuel
      | Threw e w1 \<Rightarrow> Threw e w1
      | Done v w1 \<Rightarrow>
          (case dispatch_all n E w1 as of
             OutOfFuel \<Rightarrow> OutOfFuel
           | Threw e w2 \<Rightarrow> Threw e w2
           | Done ss w2 \<Rightarrow> Done (getState w1 # ss) w2))"

text \<open>The left fold of the specification, with every intermediate value.\<close>

fun folds :: "('s \<Rightarrow> 'a \<Rightarrow> 's) \<Rightarrow> 's \<Rightarrow> 'a list \<Rightarrow> 's list" where
  "folds f s [] = []"
| "folds f s (a # as) = f s a # folds f (f s a) as"

text \<open>The error a call threw, and the value it returned.\<close>

fun thrown :: "('a, 'w) res \<Rightarrow> error option" where
  "thrown (Threw e w) = Some e"
| "thrown r = None"

fun returned :: "('a, 'w) res \<Rightarrow> 'a option" where
  "returned (Done v w) = Some v"
| "returned r = None"

subsection \<open>The flag and the call stack\<close>

fun stack_of :: "call \<Rightarrow> frame list" where
  "stack_of (DispatchCall st w action) = st"
| "stack_of (NotifyLoop st p l i w) = st"
| "stack_of (RunBody st w b) = st"

text \<open>
  The value \<open>b\<close> of \<open>isDispatching\<close> fits the call stack \<open>st\<close>: it is true exactly when
  a reducer is on the stack, and a reducer is on the stack only as the innermost callback.
\<close>

definition flag_matches :: "frame list \<Rightarrow> bool \<Rightarrow> bool" where
  "flag_matches st b \<longleftrightarrow> (b \<longleftrightarrow> InReducer \<in> set st) \<and> InReducer \<notin> set (tl st)"

text \<open>
  A call is entered with the flag fitting its stack; the notification loop is entered
  with the flag false, as \<open>dispatch\<close> enters it.
\<close>

definition entered_well :: "call \<Rightarrow> bool" where
  "entered_well c \<longleftrightarrow>
     flag_matches (stack_of c) (isDispatching (store_of c)) \<and>
     (case c of NotifyLoop st p l i w \<Rightarrow> \<not> isDispatching w | _ \<Rightarrow> True)"

subsection \<open>Subscribing from outside\<close>

text \<open>The store after the call \<open>subscribe(listener)\<close>, for a caller that drops the closure.\<close>

definition subscribed :: "store \<Rightarrow> jsval \<Rightarrow> store" where
  "subscribed w listener = (case subscribe w listener of Inr (h, w1) \<Rightarrow> w1 | Inl e \<Rightarrow> w)"


text \<open>The store after \<open>n\<close> calls \<open>subscribe(listener)\<close>.\<close>

fun subscribed_times :: "nat \<Rightarrow> store \<Rightarrow> jsval \<Rightarrow> store" where
  "subscribed_times 0 w listener = w"
| "subscribed_times (Suc n) w listener = subscribed_times n (subscribed w listener) listener"

text \<open>Closure \<open>h\<close> has been called: its \<open>isSubscribed\<close> is false.\<close>

definition dead :: "store \<Rightarrow> nat \<Rightarrow> bool" where
  "dead w h \<longleftrightarrow> h < length (closures w) \<and> \<not> snd (closures w ! h)"


subsection \<open>Example callers\<close>

text \<open>
  An action creator that wraps its arguments, and a \<open>dispatch\<close> that records each
  action it is given in its world (a list) and returns how many it had before.
\<close>

definition example_creators :: "nat \<Rightarrow> (jsval list) jsfun" where
  "example_creators i = pure_fn (\<lambda>args. Obj [(''type'', Str ''ADD''), (''args'', Arr args)])"

definition recording_dispatch :: "(jsval list) jsfun" where
  "recording_dispatch args w = Done (Num (int (length w))) (w @ [first_arg args])"

text \<open>
  A counter: the reducer (function 0) adds one on \<open>INC\<close> and starts from 0. Function 1
  is a listener that dispatches \<open>INC\<close> once more when it sees the state 1.
\<close>

definition inc_action :: jsval where
  "inc_action = Obj [(''type'', Str ''INC'')]"

fun counter :: "jsval \<Rightarrow> jsval \<Rightarrow> jsval" where
  "counter (Num k) action = (if get_prop action ''type'' = Str ''INC'' then Num (k + 1) else Num k)"
| "counter s action = Num 0"

definition redispatch_env :: env where
  "redispatch_env f args =
     (if f = 0 then Return (counter (args ! 0) (args ! 1))
      else GetState (\<lambda>s. if s = Num 1 then Dispatch inc_action (\<lambda>v. Return Undefined)
                          else Return Undefined))"

text \<open>
  Function 0 is a reducer that throws on \<open>BOOM\<close> and counts otherwise; function 1 is
  a listener that throws; every other function is a listener that does nothing.
\<close>

definition failing_env :: env where
  "failing_env f args =
     (if f = 0 then
        (if get_prop (args ! 1) ''type'' = Str ''BOOM'' then Throw (Error ''boom'')
         else Return (counter (args ! 0) (args ! 1)))
      else if f = 1 then Throw (Error ''listener failed'')
      else Return Undefined)"

text \<open>
  Two reducers that dispatch while they run: function 0 catches what the nested
  \<open>dispatch\<close> throws and returns 1, function 1 catches it and throws it again.
\<close>

definition nesting_env :: env where
  "nesting_env f args =
     (if f = 0 then TryCatch (Dispatch inc_action Return) (\<lambda>v. Return (Num 7)) (\<lambda>e. Return (Num 1))
      else TryCatch (Dispatch inc_action Return) (\<lambda>v. Return (Num 7)) Throw)"

text \<open>
  Function 0 is the counting reducer; function 1 is a listener that calls the closure
  with index 1 and subscribes function 3; every other function is a listener that does
  nothing.
\<close>

definition unsub_env :: env where
  "unsub_env f args =
     (if f = 0 then Return (counter (args ! 0) (args ! 1))
      else if f = 1 then Unsubscribe 1 (Subscribe (Fn 3) (\<lambda>h. Return Undefined))
      else Return Undefined)"


subsection \<open>Callbacks that return, callbacks that throw\<close>

text \<open>
  The call of listener \<open>f\<close> that pass \<open>p\<close> makes under the stack \<open>st\<close>, from any store
  that satisfies \<open>P\<close>, returns with some fuel, in a store that satisfies \<open>P\<close> again.
\<close>

definition listener_returns :: "env \<Rightarrow> frame list \<Rightarrow> nat \<Rightarrow> (store \<Rightarrow> bool) \<Rightarrow> nat \<Rightarrow> bool" where
  "listener_returns E st p P f \<longleftrightarrow>
     (\<forall>w. P w \<longrightarrow> (\<exists>n v w'. run n E (InListener f # st) (w\<lparr>trace := trace w @ [Invoked p f]\<rparr>) (E f []) = Done v w' \<and> P w'))"

text \<open>
  That call, from any store that satisfies \<open>P\<close>, throws \<open>e\<close> with some fuel, and leaves
  a store that satisfies \<open>Q\<close>.
\<close>

definition listener_throws :: "env \<Rightarrow> frame list \<Rightarrow> nat \<Rightarrow> (store \<Rightarrow> bool) \<Rightarrow> (store \<Rightarrow> bool) \<Rightarrow> error \<Rightarrow> nat \<Rightarrow> bool" where
  "listener_throws E st p P Q e f \<longleftrightarrow>
     (\<forall>w. P w \<longrightarrow> (\<exists>n w'. run n E (InListener f # st) (w\<lparr>trace := trace w @ [Invoked p f]\<rparr>) (E f []) = Threw e w' \<and> Q w'))"

text \<open>A call made while a reducer runs: any call but the notification loop, with the flag set.\<close>

definition in_reducer :: "call \<Rightarrow> bool" where
  "in_reducer c \<longleftrightarrow>
     (case c of NotifyLoop st p l i w \<Rightarrow> False | _ \<Rightarrow> isDispatching (store_of c))"

text \<open>The \<open>message\<close> of an error.\<close>

fun message :: "error \<Rightarrow> string" where
  "message (Error m) = m"
| "message (TypeError m) = m"

text \<open>
  Function 0 is a reducer that reads the state, dispatches the \<open>payload\<close> of its
  action, catches what the nested \<open>dispatch\<close> throws and returns as the state the
  array of the state it read and the message of that error; every other function is a
  listener that does nothing.
\<close>

definition reporting_env :: env where
  "reporting_env f args =
     (if f = 0 then
        GetState (\<lambda>s.
          TryCatch (Dispatch (get_prop (args ! 1) ''payload'') Return)
            (\<lambda>v. Return (Str ''dispatched'')) (\<lambda>e. Return (Arr [s, Str (message e)])))
      else Return Undefined)"

section \<open>Properties\<close>

lemma compose_snoc:
  "compose (f # fs @ [h]) = (\<lambda>args w. and_then (h args w) (\<lambda>v. compose (f # fs) [v]))"
proof -
  have "compose (f # fs) = foldl (\<lambda>a b. (\<lambda>args w. and_then (b args w) (\<lambda>v. a [v]))) f fs"
    by (cases fs) (simp_all add: compose_def)
  then show ?thesis
    by (simp add: compose_def)
qed

text \<open>
  Claim C9. \<open>compose()\<close> is the identity on its argument, \<open>compose(f)\<close> is \<open>f\<close>
  itself, and \<open>compose(f, g, h)(x, y)\<close> is \<open>f(g(h(x, y)))\<close>: \<open>h\<close> is called
  with all the arguments, \<open>g\<close> with what \<open>h\<close> returned, \<open>f\<close> with what \<open>g\<close>
  returned, in that order and each once; what one of them throws ends the chain. For
  functions with no effect the result is the value \<open>f(g(h(x, y)))\<close> and the world is
  untouched. For any two or more functions, the rightmost is called with the arguments
  and the composition of the others with its result.
\<close>

theorem compose_right_to_left:
  "compose [] (x # xs) w = Done x w
   \<and> compose [] [] w = Done Undefined w
   \<and> compose [f] = f
   \<and> compose [f, g, h] [x, y] w = and_then (h [x, y] w) (\<lambda>v w1. and_then (g [v] w1) (\<lambda>u. f [u]))
   \<and> compose [pure_fn p, pure_fn q, pure_fn r] [x, y] w = Done (p [q [r [x, y]]]) w
   \<and> compose (f # fs @ [h]) args w = and_then (h args w) (\<lambda>v. compose (f # fs) [v])"
proof -
  have none: "compose [] (x # xs) w = Done x w" "compose [] [] w = Done Undefined w"
    by (simp_all add: compose_def first_arg_def)
  have one: "compose [f] = f"
    by (simp add: compose_def)
  have three: "compose [f, g, h] [x, y] w =
      and_then (h [x, y] w) (\<lambda>v w1. and_then (g [v] w1) (\<lambda>u. f [u]))"
    by (simp add: compose_def)
  have pure: "compose [pure_fn p, pure_fn q, pure_fn r] [x, y] w = Done (p [q [r [x, y]]]) w"
    by (simp add: compose_def pure_fn_def and_then_def)
  have more: "compose (f # fs @ [h]) args w = and_then (h args w) (\<lambda>v. compose (f # fs) [v])"
    by (simp add: compose_snoc)
  from none one three pure more show ?thesis
    by (intro conjI)
qed

lemma set_object_keys: "set (object_keys v) = fst ` set (own_props v)"
  by (auto simp: object_keys_def key_order_def)

lemma object_keys_order:
  "object_keys (Obj [(''b'', Num 1), (''10'', Num 2), (''a'', Num 3), (''2'', Num 4), (''01'', Num 5)])
     = [''2'', ''10'', ''b'', ''a'', ''01'']"
  by (simp add: object_keys_def key_order_def array_index_def digit_value_def string_of_nat.simps)

lemma map_of_bind_keys:
  "map_of (bind_keys F m d keys acc) key =
     (if key \<in> set keys \<and> (\<exists>f. get_prop m key = Fn f)
      then (case get_prop m key of Fn f \<Rightarrow> Some (bindActionCreator (F f) d) | _ \<Rightarrow> None)
      else map_of acc key)"
  by (induction keys arbitrary: acc) (auto simp: update_conv' split: jsval.splits)

lemma keys_bind_keys:
  "set (map fst (bind_keys F m d keys acc)) =
     set (map fst acc) \<union> {key \<in> set keys. \<exists>f. get_prop m key = Fn f}"
  by (induction keys arbitrary: acc) (auto simp: dom_update split: jsval.splits)

lemma distinct_bind_keys:
  "distinct (map fst acc) \<Longrightarrow> distinct (map fst (bind_keys F m d keys acc))"
  by (induction keys arbitrary: acc) (auto simp: distinct_update split: jsval.splits)

lemma typeof_function: "typeof v = ''function'' \<longleftrightarrow> (\<exists>f. v = Fn f)"
  by (cases v) auto

text \<open>
  Claim C8. Given a function, \<open>bindActionCreators\<close> returns the wrapper
  \<open>bindActionCreator\<close> builds: called with \<open>args\<close>, it calls the action creator with
  them and then \<open>dispatch\<close> with the one value the creator returned, and what
  \<open>dispatch\<close> returns is its result (for a creator with no effect: the single call
  \<open>dispatch(creator(args))\<close>). Given a value that is neither a function nor a
  non-null object, it throws the configuration error. Given a non-null object, it
  returns a fresh object whose keys are the keys of the argument that hold a function,
  each mapped to the wrapper of that function; a key that holds anything else is absent
  from the result, so the key set is the argument's when every value is a function.
\<close>

theorem bindActionCreators_spec:
  "bindActionCreators F (Fn f) d = Inr (BoundFunction (bindActionCreator (F f) d))
   \<and> bindActionCreator ac d args w = and_then (ac args w) (\<lambda>a. d [a])
   \<and> bindActionCreator (pure_fn c) d args w = d [c args] w
   \<and> (typeof m \<noteq> ''function'' \<and> (typeof m \<noteq> ''object'' \<or> m = Null) \<longrightarrow>
        (\<exists>e. bindActionCreators F m d = Inl e \<and> ConfigurationError e))
   \<and> (typeof m = ''object'' \<and> m \<noteq> Null \<longrightarrow>
        (\<exists>out. bindActionCreators F m d = Inr (BoundObject out)
           \<and> distinct (map fst out)
           \<and> set (map fst out) = {key \<in> set (object_keys m). \<exists>g. get_prop m key = Fn g}
           \<and> (\<forall>key g. key \<in> set (object_keys m) \<and> get_prop m key = Fn g \<longrightarrow>
                  map_of out key = Some (bindActionCreator (F g) d))
           \<and> (\<forall>key. key \<in> set (object_keys m) \<and> typeof (get_prop m key) \<noteq> ''function'' \<longrightarrow>
                  map_of out key = None)
           \<and> (list_all (\<lambda>key. typeof (get_prop m key) = ''function'') (object_keys m) \<longrightarrow>
                  set (map fst out) = set (object_keys m))))"
proof (intro conjI impI)
  show "bindActionCreators F (Fn f) d = Inr (BoundFunction (bindActionCreator (F f) d))"
    by (simp add: bindActionCreators_def)
  show "bindActionCreator ac d args w = and_then (ac args w) (\<lambda>a. d [a])"
    by (simp add: bindActionCreator_def)
  show "bindActionCreator (pure_fn c) d args w = d [c args] w"
    by (simp add: bindActionCreator_def pure_fn_def and_then_def)
next
  assume "typeof m \<noteq> ''function'' \<and> (typeof m \<noteq> ''object'' \<or> m = Null)"
  then have "bindActionCreators F m d = Inl (bind_error m)"
    by (cases m) (auto simp: bindActionCreators_def)
  then show "\<exists>e. bindActionCreators F m d = Inl e \<and> ConfigurationError e"
    by (auto simp: ConfigurationError_def)
next
  assume a: "typeof m = ''object'' \<and> m \<noteq> Null"
  let ?out = "bind_keys F m d (object_keys m) []"
  from a have "bindActionCreators F m d = Inr (BoundObject ?out)"
    by (cases m) (auto simp: bindActionCreators_def)
  moreover have "distinct (map fst ?out)"
    by (rule distinct_bind_keys) simp
  moreover have "set (map fst ?out) = {key \<in> set (object_keys m). \<exists>g. get_prop m key = Fn g}"
    using keys_bind_keys [of F m d "object_keys m" "[]"] by simp
  moreover have "\<forall>key g. key \<in> set (object_keys m) \<and> get_prop m key = Fn g \<longrightarrow>
      map_of ?out key = Some (bindActionCreator (F g) d)"
    by (simp add: map_of_bind_keys)
  moreover have "\<forall>key. key \<in> set (object_keys m) \<and> typeof (get_prop m key) \<noteq> ''function'' \<longrightarrow>
      map_of ?out key = None"
    by (auto simp: map_of_bind_keys typeof_function)
  moreover have "list_all (\<lambda>key. typeof (get_prop m key) = ''function'') (object_keys m) \<longrightarrow>
      set (map fst ?out) = set (object_keys m)"
    using keys_bind_keys [of F m d "object_keys m" "[]"]
    by (auto simp: list_all_iff typeof_function)
  ultimately show "\<exists>out. bindActionCreators F m d = Inr (BoundObject out)
           \<and> distinct (map fst out)
           \<and> set (map fst out) = {key \<in> set (object_keys m). \<exists>g. get_prop m key = Fn g}
           \<and> (\<forall>key g. key \<in> set (object_keys m) \<and> get_prop m key = Fn g \<longrightarrow>
                  map_of out key = Some (bindActionCreator (F g) d))
           \<and> (\<forall>key. key \<in> set (object_keys m) \<and> typeof (get_prop m key) \<noteq> ''function'' \<longrightarrow>
                  map_of out key = None)
           \<and> (list_all (\<lambda>key. typeof (get_prop m key) = ''function'') (object_keys m) \<longrightarrow>
                  set (map fst out) = set (object_keys m))"
    by blast
qed

theorem bindActionCreators_witness:
  "typeof (Obj [(''a'', Fn 0), (''n'', Num 1)]) = ''object'' \<and> Obj [(''a'', Fn 0), (''n'', Num 1)] \<noteq> Null
   \<and> (\<exists>out b. bindActionCreators example_creators (Obj [(''a'', Fn 0), (''n'', Num 1)]) recording_dispatch
                  = Inr (BoundObject out)
         \<and> set (map fst out) = {''a''} \<and> map_of out ''n'' = None \<and> map_of out ''a'' = Some b
         \<and> b [Num 1, Num 2] [] = Done (Num 0) [Obj [(''type'', Str ''ADD''), (''args'', Arr [Num 1, Num 2])]])
   \<and> typeof (Str ''x'') \<noteq> ''function'' \<and> typeof (Str ''x'') \<noteq> ''object''
   \<and> (\<exists>e. bindActionCreators example_creators (Str ''x'') recording_dispatch = Inl e \<and> ConfigurationError e)
   \<and> list_all (\<lambda>key. typeof (get_prop (Obj [(''a'', Fn 0), (''b'', Fn 1)]) key) = ''function'')
        (object_keys (Obj [(''a'', Fn 0), (''b'', Fn 1)]))
   \<and> (\<exists>out. bindActionCreators example_creators (Obj [(''a'', Fn 0), (''b'', Fn 1)]) recording_dispatch
                  = Inr (BoundObject out)
         \<and> set (map fst out) = {''a'', ''b''})"
proof -
  let ?m = "Obj [(''a'', Fn 0), (''n'', Num 1)]"
  let ?m2 = "Obj [(''a'', Fn 0), (''b'', Fn 1)]"
  have h: "typeof ?m = ''object'' \<and> ?m \<noteq> Null"
    by simp
  have ka: "''a'' \<in> set (object_keys ?m) \<and> get_prop ?m ''a'' = Fn 0"
    by (simp add: set_object_keys get_prop_def)
  have kn: "''n'' \<in> set (object_keys ?m) \<and> typeof (get_prop ?m ''n'') \<noteq> ''function''"
    by (simp add: set_object_keys get_prop_def)
  have ks: "{key \<in> set (object_keys ?m). \<exists>g. get_prop ?m key = Fn g} = {''a''}"
    by (auto simp: set_object_keys get_prop_def)
  from bindActionCreators_spec [of example_creators 0 recording_dispatch _ _ _ _ ?m] h
  obtain out where out:
    "bindActionCreators example_creators ?m recording_dispatch = Inr (BoundObject out)"
    "set (map fst out) = {key \<in> set (object_keys ?m). \<exists>g. get_prop ?m key = Fn g}"
    "\<forall>key g. key \<in> set (object_keys ?m) \<and> get_prop ?m key = Fn g \<longrightarrow>
        map_of out key = Some (bindActionCreator (example_creators g) recording_dispatch)"
    "\<forall>key. key \<in> set (object_keys ?m) \<and> typeof (get_prop ?m key) \<noteq> ''function'' \<longrightarrow>
        map_of out key = None"
    by blast
  have a: "map_of out ''a'' = Some (bindActionCreator (example_creators 0) recording_dispatch)"
    using out(3) ka by blast
  have n: "map_of out ''n'' = None"
    using out(4) kn by blast
  have call: "bindActionCreator (example_creators 0) recording_dispatch [Num 1, Num 2] []
      = Done (Num 0) [Obj [(''type'', Str ''ADD''), (''args'', Arr [Num 1, Num 2])]]"
    by (simp add: bindActionCreator_def example_creators_def recording_dispatch_def pure_fn_def
        and_then_def first_arg_def)
  have err: "\<exists>e. bindActionCreators example_creators (Str ''x'') recording_dispatch = Inl e
      \<and> ConfigurationError e"
    using bindActionCreators_spec [of example_creators 0 recording_dispatch _ _ _ _ "Str ''x''"]
    by simp
  have h2: "typeof ?m2 = ''object'' \<and> ?m2 \<noteq> Null"
    by simp
  have all: "list_all (\<lambda>key. typeof (get_prop ?m2 key) = ''function'') (object_keys ?m2)"
    by (simp add: list_all_iff set_object_keys get_prop_def)
  have k2: "set (object_keys ?m2) = {''a'', ''b''}"
    by (simp add: set_object_keys)
  from bindActionCreators_spec [of example_creators 0 recording_dispatch _ _ _ _ ?m2] h2 all
  obtain out2 where out2:
    "bindActionCreators example_creators ?m2 recording_dispatch = Inr (BoundObject out2)"
    "set (map fst out2) = set (object_keys ?m2)"
    by blast
  from out2 k2 have both: "\<exists>out. bindActionCreators example_creators ?m2 recording_dispatch
      = Inr (BoundObject out) \<and> set (map fst out) = {''a'', ''b''}"
    by simp
  show ?thesis
    using h out(1) out(2) ks a n call err all both by auto
qed

subsection \<open>The equations of dispatch, the pass and the callbacks\<close>

lemma dispatch_Suc:
  "dispatch (Suc n) E st w action =
     (if \<not> isPlainObject action then
        Threw (Error ''Actions must be plain objects. Use custom middleware for async actions.'') w
      else if typeof (get_prop action ''type'') = ''undefined'' then
        Threw (Error ''Actions may not have an undefined \"type\" property. Have you misspelled a constant?'') w
      else
        let w0 = w\<lparr>trace := trace w @ [FlagRead st (isDispatching w)]\<rparr> in
        if isDispatching w0 then Threw (Error ''Reducers may not dispatch actions.'') w0
        else
          (case run n E (InReducer # st) (w0\<lparr>isDispatching := True\<rparr>)
                  (E (currentReducer w0) [currentState w0, action]) of
             OutOfFuel \<Rightarrow> OutOfFuel
           | Threw e w1 \<Rightarrow> Threw e (w1\<lparr>isDispatching := False\<rparr>)
           | Done v w1 \<Rightarrow>
               let w2 = w1\<lparr>currentState := v, isDispatching := False\<rparr>;
                   w3 = w2\<lparr>currentListeners := nextListeners w2, passes := Suc (passes w2)\<rparr>
               in (case notify n E st (passes w2) (currentListeners w3) 0 w3 of
                     OutOfFuel \<Rightarrow> OutOfFuel
                   | Threw e w4 \<Rightarrow> Threw e w4
                   | Done u w4 \<Rightarrow> Done action w4)))"
  unfolding dispatch_def run_def notify_def by simp

lemma notify_Suc:
  "notify (Suc n) E st p l i w =
     (if i < length (arrays w l) then
        let listener = arrays w l ! i;
            w1 = w\<lparr>trace := trace w @ [Invoked p listener]\<rparr>
        in (case run n E (InListener listener # st) w1 (E listener []) of
              OutOfFuel \<Rightarrow> OutOfFuel
            | Threw e w2 \<Rightarrow> Threw e w2
            | Done u w2 \<Rightarrow> notify n E st p l (i + 1) w2)
      else Done Undefined w)"
  unfolding run_def notify_def by simp

lemma run_Suc:
  "run (Suc n) E st w (Return v) = Done v w"
  "run (Suc n) E st w (Throw e) = Threw e w"
  "run (Suc n) E st w (GetState k) = run n E st w (k (getState w))"
  "run (Suc n) E st w (Dispatch action k) =
     (case dispatch n E st w action of
        OutOfFuel \<Rightarrow> OutOfFuel
      | Threw e w1 \<Rightarrow> Threw e w1
      | Done v w1 \<Rightarrow> run n E st w1 (k v))"
  "run (Suc n) E st w (Subscribe listener kh) =
     (case subscribe w listener of
        Inl e \<Rightarrow> Threw e w
      | Inr (h, w1) \<Rightarrow> run n E st w1 (kh h))"
  "run (Suc n) E st w (Unsubscribe h b) =
     (case unsubscribe w h of
        Inl e \<Rightarrow> Threw e w
      | Inr w1 \<Rightarrow> run n E st w1 b)"
  "run (Suc n) E st w (ReplaceReducer nextReducer b) =
     (case nextReducer of
        Fn r \<Rightarrow>
          (case dispatch n E st (w\<lparr>currentReducer := r\<rparr>) init_action of
             OutOfFuel \<Rightarrow> OutOfFuel
           | Threw e w1 \<Rightarrow> Threw e w1
           | Done v w1 \<Rightarrow> run n E st w1 b)
      | _ \<Rightarrow> Threw (Error ''Expected the nextReducer to be a function.'') w)"
  "run (Suc n) E st w (TryCatch b k handler) =
     (case run n E st w b of
        OutOfFuel \<Rightarrow> OutOfFuel
      | Threw e w1 \<Rightarrow> run n E st w1 (handler e)
      | Done v w1 \<Rightarrow> run n E st w1 (k v))"
  unfolding dispatch_def run_def notify_def by simp_all

lemma exec_0: "dispatch 0 E st w a = OutOfFuel" "notify 0 E st p l i w = OutOfFuel" "run 0 E st w b = OutOfFuel"
  by (simp_all add: dispatch_def run_def notify_def)

subsection \<open>The frame of subscribe and unsubscribe\<close>

lemma ensure_fields [simp]:
  "currentListeners (ensureCanMutateNextListeners w) = currentListeners w"
  "currentState (ensureCanMutateNextListeners w) = currentState w"
  "currentReducer (ensureCanMutateNextListeners w) = currentReducer w"
  "isDispatching (ensureCanMutateNextListeners w) = isDispatching w"
  "closures (ensureCanMutateNextListeners w) = closures w"
  "passes (ensureCanMutateNextListeners w) = passes w"
  "trace (ensureCanMutateNextListeners w) = trace w"
  by (simp_all add: ensureCanMutateNextListeners_def)

lemma ensure_registry [simp]: "registry (ensureCanMutateNextListeners w) = registry w"
  by (simp add: ensureCanMutateNextListeners_def registry_def)

lemma ensure_allocated: "allocated w \<le> allocated (ensureCanMutateNextListeners w)"
  by (simp add: ensureCanMutateNextListeners_def)

lemma ensure_arrays: "l < allocated w \<Longrightarrow> arrays (ensureCanMutateNextListeners w) l = arrays w l"
  by (simp add: ensureCanMutateNextListeners_def)

lemma ensure_split:
  "currentListeners w < allocated w \<Longrightarrow>
   nextListeners (ensureCanMutateNextListeners w) \<noteq> currentListeners w"
  by (auto simp add: ensureCanMutateNextListeners_def)

lemma ensure_protected:
  "protected l w \<Longrightarrow> protected l (ensureCanMutateNextListeners w) \<and> nextListeners (ensureCanMutateNextListeners w) \<noteq> l"
  by (auto simp add: ensureCanMutateNextListeners_def protected_def)

lemma subscribe_frame:
  "subscribe w x = Inr (h, w') \<Longrightarrow> protected l w \<Longrightarrow> protected l w' \<and> arrays w' l = arrays w l"
  using ensure_protected [of l w] ensure_arrays [of l w]
  by (auto simp: subscribe_def Let_def protected_def split: jsval.splits)

lemma unsubscribe_frame:
  "unsubscribe w h = Inr w' \<Longrightarrow> protected l w \<Longrightarrow> protected l w' \<and> arrays w' l = arrays w l"
  using ensure_protected [of l "w\<lparr>closures := (closures w)[h := (fst (closures w ! h), False)]\<rparr>"]
     ensure_arrays [of l "w\<lparr>closures := (closures w)[h := (fst (closures w ! h), False)]\<rparr>"]
  by (auto simp: unsubscribe_def Let_def protected_def split: if_splits)

lemma protected_upd [simp]:
  "protected l (w\<lparr>trace := t\<rparr>) = protected l w"
  "protected l (w\<lparr>isDispatching := b\<rparr>) = protected l w"
  "protected l (w\<lparr>currentState := v\<rparr>) = protected l w"
  "protected l (w\<lparr>currentReducer := r\<rparr>) = protected l w"
  "protected l (w\<lparr>closures := cs\<rparr>) = protected l w"
  "protected l (w\<lparr>passes := k\<rparr>) = protected l w"
  by (simp_all add: protected_def)

lemma protected_commit [simp]:
  "protected l w \<Longrightarrow> protected l (w\<lparr>currentListeners := nextListeners w\<rparr>)"
  by (simp add: protected_def)

lemma exec_frame:
  "final (exec n E c) = Some w' \<Longrightarrow> protected l (store_of c) \<Longrightarrow>
   protected l w' \<and> arrays w' l = arrays (store_of c) l"
proof (induction n arbitrary: c w')
  case 0
  then show ?case by simp
next
  case (Suc n)
  have D: "exec n E c = Done v w1 \<Longrightarrow> protected l (store_of c) \<Longrightarrow>
      protected l w1 \<and> arrays w1 l = arrays (store_of c) l" for c v w1
    using Suc.IH [of c w1] by simp
  have T: "exec n E c = Threw e w1 \<Longrightarrow> protected l (store_of c) \<Longrightarrow>
      protected l w1 \<and> arrays w1 l = arrays (store_of c) l" for c e w1
    using Suc.IH [of c w1] by simp
  show ?case
  proof (cases c)
    case (DispatchCall st w action)
    show ?thesis using Suc.prems unfolding DispatchCall
      by (auto simp: Let_def protected_def split: if_splits res.splits dest!: D T)
  next
    case (NotifyLoop st p la i w)
    show ?thesis using Suc.prems unfolding NotifyLoop
      by (auto simp: Let_def split: if_splits res.splits dest!: D T Suc.IH)
  next
    case (RunBody st w b)
    show ?thesis using Suc.prems unfolding RunBody
      by (cases b) (auto simp: Let_def split: if_splits res.splits sum.splits jsval.splits dest!: D T Suc.IH subscribe_frame unsubscribe_frame)
  qed
qed

lemma subscribe_fields:
  "subscribe w x = Inr (h, w') \<Longrightarrow>
     isDispatching w' = isDispatching w \<and> currentState w' = currentState w \<and>
     currentListeners w' = currentListeners w \<and> passes w' = passes w \<and> trace w' = trace w \<and>
     currentReducer w' = currentReducer w"
  by (auto simp: subscribe_def Let_def split: jsval.splits)

lemma unsubscribe_fields:
  "unsubscribe w h = Inr w' \<Longrightarrow>
     isDispatching w' = isDispatching w \<and> currentState w' = currentState w \<and>
     currentListeners w' = currentListeners w \<and> passes w' = passes w \<and> trace w' = trace w \<and>
     currentReducer w' = currentReducer w"
  by (auto simp: unsubscribe_def Let_def split: if_splits)

lemma exec_flag:
  "final (exec n E c) = Some w' \<Longrightarrow>
   isDispatching w' = isDispatching (store_of c) \<and>
   (isDispatching (store_of c) \<longrightarrow>
      currentState w' = currentState (store_of c) \<and> passes w' = passes (store_of c) \<and>
      currentListeners w' = currentListeners (store_of c))"
proof (induction n arbitrary: c w')
  case 0
  then show ?case by simp
next
  case (Suc n)
  have D: "exec n E c = Done v w1 \<Longrightarrow>
      isDispatching w1 = isDispatching (store_of c) \<and>
      (isDispatching (store_of c) \<longrightarrow>
        currentState w1 = currentState (store_of c) \<and> passes w1 = passes (store_of c) \<and>
        currentListeners w1 = currentListeners (store_of c))" for c v w1
    using Suc.IH [of c w1] by simp
  have T: "exec n E c = Threw e w1 \<Longrightarrow>
      isDispatching w1 = isDispatching (store_of c) \<and>
      (isDispatching (store_of c) \<longrightarrow>
        currentState w1 = currentState (store_of c) \<and> passes w1 = passes (store_of c) \<and>
        currentListeners w1 = currentListeners (store_of c))" for c e w1
    using Suc.IH [of c w1] by simp
  show ?case
  proof (cases c)
    case (DispatchCall st w action)
    show ?thesis using Suc.prems unfolding DispatchCall
      by (auto simp: Let_def split: if_splits res.splits dest!: D T Suc.IH)
  next
    case (NotifyLoop st p la i w)
    show ?thesis using Suc.prems unfolding NotifyLoop
      by (auto simp: Let_def split: if_splits res.splits dest!: D T Suc.IH)
  next
    case (RunBody st w b)
    show ?thesis using Suc.prems unfolding RunBody
      by (cases b) (auto simp: Let_def getState_def split: if_splits res.splits sum.splits jsval.splits
          dest!: D T Suc.IH subscribe_fields unsubscribe_fields)
  qed
qed

lemma exec_trace:
  "final (exec n E c) = Some w' \<Longrightarrow>
   passes (store_of c) \<le> passes w' \<and>
   (\<exists>evs. trace w' = trace (store_of c) @ evs \<and>
      (\<forall>q f. Invoked q f \<in> set evs \<longrightarrow>
         (passes (store_of c) \<le> q \<and> q < passes w') \<or>
         (case c of NotifyLoop st p l i w \<Rightarrow> q = p | _ \<Rightarrow> False)))"
proof (induction n arbitrary: c w')
  case 0
  then show ?case by simp
next
  case (Suc n)
  have D: "exec n E c = Done v w1 \<Longrightarrow>
      passes (store_of c) \<le> passes w1 \<and>
      (\<exists>evs. trace w1 = trace (store_of c) @ evs \<and>
        (\<forall>q f. Invoked q f \<in> set evs \<longrightarrow>
           (passes (store_of c) \<le> q \<and> q < passes w1) \<or>
           (case c of NotifyLoop st p l i w \<Rightarrow> q = p | _ \<Rightarrow> False)))" for c v w1
    using Suc.IH [of c w1] by simp
  have T: "exec n E c = Threw e w1 \<Longrightarrow>
      passes (store_of c) \<le> passes w1 \<and>
      (\<exists>evs. trace w1 = trace (store_of c) @ evs \<and>
        (\<forall>q f. Invoked q f \<in> set evs \<longrightarrow>
           (passes (store_of c) \<le> q \<and> q < passes w1) \<or>
           (case c of NotifyLoop st p l i w \<Rightarrow> q = p | _ \<Rightarrow> False)))" for c e w1
    using Suc.IH [of c w1] by simp
  show ?case
  proof (cases c)
    case (DispatchCall st w action)
    show ?thesis using Suc.prems unfolding DispatchCall
      by (fastforce simp: Let_def split: if_splits res.splits dest!: D T Suc.IH)
  next
    case (NotifyLoop st p la i w)
    show ?thesis using Suc.prems unfolding NotifyLoop
      by (fastforce simp: Let_def split: if_splits res.splits dest!: D T Suc.IH)
  next
    case (RunBody st w b)
    show ?thesis using Suc.prems unfolding RunBody
      by (cases b) (fastforce simp: Let_def getState_def split: if_splits res.splits sum.splits jsval.splits
          dest!: D T Suc.IH subscribe_fields unsubscribe_fields)+
  qed
qed

subsection \<open>The registry and the closures\<close>

lemma indexOf_neg: "x \<notin> set xs \<Longrightarrow> indexOf xs x = - 1"
  by (induction xs) auto

lemma indexOf_bounds: "x \<in> set xs \<Longrightarrow> 0 \<le> indexOf xs x \<and> indexOf xs x < int (length xs)"
  by (induction xs) (auto simp: Let_def)

lemma indexOf_remove1:
  "x \<in> set xs \<Longrightarrow>
   take (nat (indexOf xs x)) xs @ drop (Suc (nat (indexOf xs x))) xs = remove1 x xs"
proof (induction xs)
  case Nil
  then show ?case by simp
next
  case (Cons y ys)
  show ?case
  proof (cases "y = x")
    case True
    then show ?thesis by simp
  next
    case False
    with Cons.prems have in_ys: "x \<in> set ys" by simp
    from indexOf_bounds [OF in_ys] have "nat (indexOf ys x + 1) = Suc (nat (indexOf ys x))"
      by arith
    with False in_ys Cons.IH indexOf_bounds [OF in_ys] show ?thesis
      by (simp add: Let_def)
  qed
qed

lemma indexOf_first:
  "x \<in> set xs \<Longrightarrow> xs ! nat (indexOf xs x) = x \<and> x \<notin> set (take (nat (indexOf xs x)) xs)"
proof (induction xs)
  case Nil
  then show ?case by simp
next
  case (Cons y ys)
  show ?case
  proof (cases "y = x")
    case True
    then show ?thesis by simp
  next
    case False
    with Cons.prems have in_ys: "x \<in> set ys" by simp
    from indexOf_bounds [OF in_ys] have "nat (indexOf ys x + 1) = Suc (nat (indexOf ys x))"
      by arith
    with False in_ys Cons.IH indexOf_bounds [OF in_ys] show ?thesis
      by (simp add: Let_def)
  qed
qed

lemma splice1_remove1: "x \<in> set xs \<Longrightarrow> splice1 (indexOf xs x) xs = remove1 x xs"
  using indexOf_bounds [of x xs] indexOf_remove1 [of x xs]
  by (simp add: splice1_def Let_def min_def)

lemma splice1_absent: "x \<notin> set xs \<Longrightarrow> splice1 (indexOf xs x) xs = butlast xs"
  by (cases xs rule: rev_cases) (auto simp: splice1_def Let_def indexOf_neg butlast_conv_take)

lemma count_list_remove1:
  "count_list (remove1 x xs) y = count_list xs y - (if x = y \<and> x \<in> set xs then 1 else 0)"
  by (induction xs) auto

lemma count_list_update:
  "h < length xs \<Longrightarrow>
   count_list (xs[h := y]) z + (if xs ! h = z then 1 else 0) = count_list xs z + (if y = z then 1 else 0)"
proof (induction xs arbitrary: h)
  case Nil
  then show ?case by simp
next
  case (Cons a xs)
  show ?case
  proof (cases h)
    case 0
    then show ?thesis by auto
  next
    case (Suc k)
    with Cons.prems have "k < length xs" by simp
    from Cons.IH [OF this] Suc show ?thesis by auto
  qed
qed

lemma count_list_pos: "0 < count_list xs x \<longleftrightarrow> x \<in> set xs"
  by (induction xs) auto

lemma subscribe_registry:
  "subscribe w (Fn f) = Inr (length (closures w),
      (ensureCanMutateNextListeners w)
        \<lparr>arrays := (arrays (ensureCanMutateNextListeners w))
            (nextListeners (ensureCanMutateNextListeners w) := registry w @ [f]),
         closures := closures w @ [(f, True)]\<rparr>)"
  using ensure_registry [of w] by (simp add: subscribe_def Let_def registry_def)

lemma subscribe_Inr:
  "subscribe w x = Inr (h, w') \<Longrightarrow>
   (\<exists>f. x = Fn f \<and> h = length (closures w) \<and> registry w' = registry w @ [f] \<and>
        closures w' = closures w @ [(f, True)] \<and> allocated w \<le> allocated w' \<and>
        nextListeners w' = nextListeners (ensureCanMutateNextListeners w))"
  using ensure_registry [of w] ensure_allocated [of w]
  by (auto simp: subscribe_def Let_def registry_def split: jsval.splits)

lemma ensure_next_allocated:
  "nextListeners w < allocated w \<Longrightarrow>
   nextListeners (ensureCanMutateNextListeners w) < allocated (ensureCanMutateNextListeners w)"
  by (simp add: ensureCanMutateNextListeners_def)

lemma subscribe_wf: "subscribe w x = Inr (h, w') \<Longrightarrow> wf w \<Longrightarrow> wf w'"
proof -
  assume s: "subscribe w x = Inr (h, w')" and wf: "wf w"
  from subscribe_Inr [OF s] obtain f where f: "x = Fn f" "registry w' = registry w @ [f]"
    "closures w' = closures w @ [(f, True)]" "allocated w \<le> allocated w'"
    "nextListeners w' = nextListeners (ensureCanMutateNextListeners w)"
    by blast
  have al: "allocated w' = allocated (ensureCanMutateNextListeners w)"
    using s f(1) by (auto simp: subscribe_def Let_def)
  from subscribe_fields [OF s] f wf ensure_next_allocated [of w] al show "wf w'"
    by (auto simp: wf_def)
qed

lemma unsubscribe_Inr:
  "unsubscribe w h = Inr w' \<Longrightarrow> h < length (closures w) \<and>
     (if snd (closures w ! h)
      then registry w' = splice1 (indexOf (registry w) (fst (closures w ! h))) (registry w) \<and>
           closures w' = (closures w)[h := (fst (closures w ! h), False)] \<and>
           allocated w' = allocated (ensureCanMutateNextListeners w) \<and>
           nextListeners w' = nextListeners (ensureCanMutateNextListeners w)
      else w' = w)"
proof -
  assume u: "unsubscribe w h = Inr w'"
  let ?w1 = "w\<lparr>closures := (closures w)[h := (fst (closures w ! h), False)]\<rparr>"
  have r: "registry (ensureCanMutateNextListeners ?w1) = registry w"
    using ensure_registry [of ?w1] by (simp add: registry_def)
  have e: "allocated (ensureCanMutateNextListeners ?w1) = allocated (ensureCanMutateNextListeners w)"
     "nextListeners (ensureCanMutateNextListeners ?w1) = nextListeners (ensureCanMutateNextListeners w)"
    by (simp_all add: ensureCanMutateNextListeners_def)
  from u r e show ?thesis
    by (auto simp: unsubscribe_def Let_def registry_def split: if_splits)
qed

lemma unsubscribe_live:
  assumes "wf w" "live w h f"
  shows "\<exists>w'. unsubscribe w h = Inr w' \<and> registry w' = remove1 f (registry w) \<and>
           closures w' = (closures w)[h := (f, False)] \<and> f \<in> set (registry w)"
proof -
  from assms(2) have h: "h < length (closures w)" "closures w ! h = (f, True)"
    by (simp_all add: live_def)
  then have "(f, True) \<in> set (closures w)"
    by (metis nth_mem)
  then have "0 < count_list (closures w) (f, True)"
    by (simp add: count_list_pos)
  with assms(1) have "0 < count_list (registry w) f"
    by (simp add: wf_def)
  then have mem: "f \<in> set (registry w)"
    by (simp add: count_list_pos)
  from h obtain w' where u: "unsubscribe w h = Inr w'"
    by (auto simp: unsubscribe_def Let_def)
  from unsubscribe_Inr [OF u] h mem splice1_remove1 [OF mem] have
    "registry w' = remove1 f (registry w) \<and> closures w' = (closures w)[h := (f, False)]"
    by simp
  with u mem show ?thesis by blast
qed

lemma unsubscribe_wf: "unsubscribe w h = Inr w' \<Longrightarrow> wf w \<Longrightarrow> wf w'"
proof -
  assume u: "unsubscribe w h = Inr w'" and wf: "wf w"
  show "wf w'"
  proof (cases "snd (closures w ! h)")
    case False
    with unsubscribe_Inr [OF u] wf show ?thesis by simp
  next
    case True
    from unsubscribe_Inr [OF u] have h: "h < length (closures w)" by simp
    define f where "f = fst (closures w ! h)"
    with True h have live: "live w h f"
      by (simp add: live_def prod_eq_iff)
    from unsubscribe_live [OF wf live] u have r: "registry w' = remove1 f (registry w)"
      "closures w' = (closures w)[h := (f, False)]" "f \<in> set (registry w)"
      by auto
    have cnt: "count_list (registry w') g = count_list (closures w') (g, True)" for g
      using count_list_update [OF h, of "(f, False)" "(g, True)"] live wf r
      by (auto simp: count_list_remove1 wf_def live_def)
    from unsubscribe_Inr [OF u] True have a: "allocated w' = allocated (ensureCanMutateNextListeners w)"
        "nextListeners w' = nextListeners (ensureCanMutateNextListeners w)"
      by simp_all
    from unsubscribe_fields [OF u] wf cnt a ensure_next_allocated [of w] ensure_allocated [of w]
    show ?thesis
      by (auto simp: wf_def)
  qed
qed

lemma wf_upd [simp]:
  "wf (w\<lparr>trace := trace w @ [FlagRead st b]\<rparr>) = wf w"
  "wf (w\<lparr>isDispatching := b\<rparr>) = wf w"
  "wf (w\<lparr>currentState := v\<rparr>) = wf w"
  "wf (w\<lparr>currentReducer := r\<rparr>) = wf w"
  by (auto simp add: wf_def registry_def)

lemma exec_wf:
  "final (exec n E c) = Some w' \<Longrightarrow> wf (store_of c) \<Longrightarrow>
   (case c of NotifyLoop st p l i w \<Rightarrow> p < passes w | _ \<Rightarrow> True) \<Longrightarrow> wf w'"
proof (induction n arbitrary: c w')
  case 0
  then show ?case by simp
next
  case (Suc n)
  have D: "exec n E c = Done v w1 \<Longrightarrow> wf (store_of c) \<Longrightarrow>
   (case c of NotifyLoop st p l i w \<Rightarrow> p < passes w | _ \<Rightarrow> True) \<Longrightarrow> wf w1" for c v w1
    using Suc.IH [of c w1] by simp
  have T: "exec n E c = Threw e w1 \<Longrightarrow> wf (store_of c) \<Longrightarrow>
   (case c of NotifyLoop st p l i w \<Rightarrow> p < passes w | _ \<Rightarrow> True) \<Longrightarrow> wf w1" for c e w1
    using Suc.IH [of c w1] by simp
  have P: "exec n E c = Done v w1 \<Longrightarrow> passes (store_of c) \<le> passes w1" for c v w1
    using exec_trace [of n E c w1] by simp
  have commit: "wf w1 \<Longrightarrow> wf (w1\<lparr>currentState := v, isDispatching := False,
       currentListeners := nextListeners w1, passes := Suc (passes w1)\<rparr>)" for w1 v
    by (auto simp: wf_def registry_def less_Suc_eq)
  have inv: "wf w \<Longrightarrow> p < passes w \<Longrightarrow> wf (w\<lparr>trace := trace w @ [Invoked p f]\<rparr>)" for w p f
    by (auto simp: wf_def registry_def)
  show ?case
  proof (cases c)
    case (DispatchCall st w action)
    show ?thesis using Suc.prems unfolding DispatchCall
      by (auto simp: Let_def commit split: if_splits res.splits dest!: D T Suc.IH)
  next
    case (NotifyLoop st p la i w)
    show ?thesis using Suc.prems unfolding NotifyLoop
      apply (auto simp: Let_def inv split: if_splits res.splits )
       apply (frule P)
       apply (drule D)
         apply (auto simp: inv dest!: Suc.IH)
      apply (drule T)
        apply (auto simp: inv)
      done
  next
    case (RunBody st w b)
    show ?thesis using Suc.prems unfolding RunBody
      by (cases b) (auto simp: Let_def getState_def split: if_splits res.splits sum.splits jsval.splits
          dest!: D T Suc.IH subscribe_wf unsubscribe_wf)
  qed
qed

subsection \<open>The flag and the trace\<close>

lemma entered_well_simps:
  "entered_well (DispatchCall st w a) = flag_matches st (isDispatching w)"
  "entered_well (RunBody st w b) = flag_matches st (isDispatching w)"
  "entered_well (NotifyLoop st p l i w) = (flag_matches st False \<and> \<not> isDispatching w)"
  by (auto simp: entered_well_def)

lemma flag_matches_push:
  "flag_matches st False \<Longrightarrow> flag_matches (InReducer # st) True"
  "flag_matches st False \<Longrightarrow> flag_matches (InListener f # st) False"
  by (auto simp: flag_matches_def)

lemma exec_flag_reads:
  "final (exec n E c) = Some w' \<Longrightarrow> entered_well c \<Longrightarrow>
   (\<exists>evs. trace w' = trace (store_of c) @ evs \<and>
      (\<forall>st b. FlagRead st b \<in> set evs \<longrightarrow> flag_matches st b))"
proof (induction n arbitrary: c w')
  case 0
  then show ?case by simp
next
  case (Suc n)
  have D: "exec n E c = Done v w1 \<Longrightarrow> entered_well c \<Longrightarrow>
     isDispatching w1 = isDispatching (store_of c) \<and>
     (\<exists>evs. trace w1 = trace (store_of c) @ evs \<and>
      (\<forall>st b. FlagRead st b \<in> set evs \<longrightarrow> flag_matches st b))" for c v w1
    using Suc.IH [of c w1] exec_flag [of n E c w1] by simp
  have T: "exec n E c = Threw e w1 \<Longrightarrow> entered_well c \<Longrightarrow>
     isDispatching w1 = isDispatching (store_of c) \<and>
     (\<exists>evs. trace w1 = trace (store_of c) @ evs \<and>
      (\<forall>st b. FlagRead st b \<in> set evs \<longrightarrow> flag_matches st b))" for c e w1
    using Suc.IH [of c w1] exec_flag [of n E c w1] by simp
  show ?case
  proof (cases c)
    case (DispatchCall st w action)
    show ?thesis using Suc.prems unfolding DispatchCall
      by (fastforce simp: Let_def entered_well_simps flag_matches_push split: if_splits res.splits dest!: D T Suc.IH)
  next
    case (NotifyLoop st p la i w)
    show ?thesis using Suc.prems unfolding NotifyLoop
      by (fastforce simp: Let_def entered_well_simps flag_matches_push split: if_splits res.splits dest!: D T Suc.IH)
  next
    case (RunBody st w b)
    show ?thesis using Suc.prems unfolding RunBody
      by (cases b) (fastforce simp: Let_def getState_def entered_well_simps flag_matches_push
          split: if_splits res.splits sum.splits jsval.splits
          dest!: D T Suc.IH subscribe_fields unsubscribe_fields)+
  qed
qed

lemma exec_state_change:
  "final (exec n E c) = Some w' \<Longrightarrow>
   (\<exists>evs. trace w' = trace (store_of c) @ evs \<and>
      ((\<forall>st. FlagRead st False \<notin> set evs) \<longrightarrow>
         currentState w' = currentState (store_of c) \<and> passes w' = passes (store_of c)))"
proof (induction n arbitrary: c w')
  case 0
  then show ?case by simp
next
  case (Suc n)
  have D: "exec n E c = Done v w1 \<Longrightarrow>
     (\<exists>evs. trace w1 = trace (store_of c) @ evs \<and>
      ((\<forall>st. FlagRead st False \<notin> set evs) \<longrightarrow>
         currentState w1 = currentState (store_of c) \<and> passes w1 = passes (store_of c)))" for c v w1
    using Suc.IH [of c w1] by simp
  have T: "exec n E c = Threw e w1 \<Longrightarrow>
     (\<exists>evs. trace w1 = trace (store_of c) @ evs \<and>
      ((\<forall>st. FlagRead st False \<notin> set evs) \<longrightarrow>
         currentState w1 = currentState (store_of c) \<and> passes w1 = passes (store_of c)))" for c e w1
    using Suc.IH [of c w1] by simp
  show ?case
  proof (cases c)
    case (DispatchCall st w action)
    show ?thesis using Suc.prems unfolding DispatchCall
      by (fastforce simp: Let_def split: if_splits res.splits dest!: D T Suc.IH)
  next
    case (NotifyLoop st p la i w)
    show ?thesis using Suc.prems unfolding NotifyLoop
      by (fastforce simp: Let_def split: if_splits res.splits dest!: D T Suc.IH)
  next
    case (RunBody st w b)
    show ?thesis using Suc.prems unfolding RunBody
      by (cases b) (fastforce simp: Let_def getState_def
          split: if_splits res.splits sum.splits jsval.splits
          dest!: D T Suc.IH subscribe_fields unsubscribe_fields)+
  qed
qed

subsection \<open>The notification pass\<close>

lemma pass_events_append [simp]:
  "pass_events p (xs @ ys) = pass_events p xs @ pass_events p ys"
  by (induction p xs rule: pass_events.induct) auto

lemma pass_events_none: "\<forall>f. Invoked p f \<notin> set evs \<Longrightarrow> pass_events p evs = []"
  by (induction p evs rule: pass_events.induct) auto

lemma pass_events_fresh: "wf w \<Longrightarrow> passes w \<le> p \<Longrightarrow> pass_events p (trace w) = []"
  by (rule pass_events_none) (auto simp: wf_def)

lemma listener_call:
  assumes "final (exec n E (RunBody st w b)) = Some w'" "protected l w" "p < passes w"
  shows "protected l w' \<and> arrays w' l = arrays w l \<and> p < passes w' \<and>
         pass_events p (trace w') = pass_events p (trace w)"
proof -
  from exec_frame [OF assms(1)] assms(2) have f: "protected l w' \<and> arrays w' l = arrays w l"
    by simp
  from exec_trace [OF assms(1)] obtain evs where evs: "passes w \<le> passes w'"
    "trace w' = trace w @ evs" "\<forall>q f. Invoked q f \<in> set evs \<longrightarrow> passes w \<le> q \<and> q < passes w'"
    by auto
  from evs(3) assms(3) have "\<forall>f. Invoked p f \<notin> set evs"
    by auto
  then have "pass_events p evs = []"
    by (rule pass_events_none)
  with f evs assms(3) show ?thesis by simp
qed

lemma notify_pass:
  "exec n E (NotifyLoop st p l i w) = r \<Longrightarrow> protected l w \<Longrightarrow> p < passes w \<Longrightarrow>
   (case r of
      Done v w' \<Rightarrow>
        pass_events p (trace w') = pass_events p (trace w) @ drop i (arrays w l) \<and>
        arrays w' l = arrays w l \<and> protected l w'
    | Threw e w' \<Rightarrow>
        (\<exists>k. i \<le> k \<and> k < length (arrays w l) \<and>
           pass_events p (trace w') = pass_events p (trace w) @ take (Suc k - i) (drop i (arrays w l))) \<and>
        arrays w' l = arrays w l \<and> protected l w'
    | OutOfFuel \<Rightarrow> True)"
proof (induction n arbitrary: i w r)
  case 0
  then show ?case by simp
next
  case (Suc n)
  show ?case
  proof (cases "i < length (arrays w l)")
    case False
    with Suc.prems show ?thesis by auto
  next
    case True
    let ?f = "arrays w l ! i"
    let ?w1 = "w\<lparr>trace := trace w @ [Invoked p ?f]\<rparr>"
    let ?call = "exec n E (RunBody (InListener ?f # st) ?w1 (E ?f []))"
    have dr: "drop i (arrays w l) = ?f # drop (Suc i) (arrays w l)"
      using True by (simp add: Cons_nth_drop_Suc)
    have p1: "protected l ?w1" "p < passes ?w1"
      using Suc.prems by simp_all
    show ?thesis
    proof (cases ?call)
      case OutOfFuel
      with True Suc.prems(1) show ?thesis by (auto simp: Let_def)
    next
      case (Threw e w2)
      then have "final ?call = Some w2" by simp
      from listener_call [OF this p1] have w2: "protected l w2" "arrays w2 l = arrays w l"
        "pass_events p (trace w2) = pass_events p (trace w) @ [?f]"
        by simp_all
      from Threw True Suc.prems(1) have r: "r = Threw e w2"
        by (auto simp: Let_def)
      have "pass_events p (trace w2) = pass_events p (trace w) @ take (Suc i - i) (drop i (arrays w l))"
        using w2(3) dr by simp
      with True w2 r show ?thesis
        by auto
    next
      case (Done u w2)
      then have "final ?call = Some w2" by simp
      from listener_call [OF this p1] have w2: "protected l w2" "arrays w2 l = arrays w l"
        "p < passes w2" "pass_events p (trace w2) = pass_events p (trace w) @ [?f]"
        by simp_all
      from Done True Suc.prems(1) have r: "exec n E (NotifyLoop st p l (Suc i) w2) = r"
        by (auto simp: Let_def)
      note IH = Suc.IH [OF r w2(1) w2(3)]
      show ?thesis
      proof (cases r)
        case OutOfFuel
        then show ?thesis by simp
      next
        case (Done v w')
        with IH w2 dr show ?thesis by simp
      next
        case (Threw e w')
        with IH obtain k where k: "Suc i \<le> k" "k < length (arrays w2 l)"
          "pass_events p (trace w') = pass_events p (trace w2) @ take (Suc k - Suc i) (drop (Suc i) (arrays w2 l))"
          "arrays w' l = arrays w2 l" "protected l w'"
          by auto
        have "take (Suc k - i) (drop i (arrays w l)) = ?f # take (Suc k - Suc i) (drop (Suc i) (arrays w l))"
          using k(1) dr by (simp add: Suc_diff_le)
        with k w2 have "pass_events p (trace w') = pass_events p (trace w) @ take (Suc k - i) (drop i (arrays w l))"
          by simp
        with k w2 Threw show ?thesis
          by (auto intro!: exI [of _ k])
      qed
    qed
  qed
qed

lemma new_events_append [simp]: "trace w' = trace w @ evs \<Longrightarrow> new_events w w' = evs"
  by (simp add: new_events_def)

lemma reducer_call_facts:
  assumes "reducer_call n E st w a = r" "final r = Some w1" "wf w" "\<not> isDispatching w"
  shows "wf w1 \<and> isDispatching w1 \<and> currentState w1 = currentState w \<and> passes w1 = passes w \<and>
         currentListeners w1 = currentListeners w"
proof -
  let ?w0 = "w\<lparr>trace := trace w @ [FlagRead st False], isDispatching := True\<rparr>"
  let ?c = "RunBody (InReducer # st) ?w0 (E (currentReducer w) [currentState w, a])"
  from assms(1,2) have f: "final (exec n E ?c) = Some w1"
    by (simp add: reducer_call_def run_def)
  have "wf ?w0" using assms(3) by simp
  with exec_wf [OF f] have "wf w1" by simp
  with exec_flag [OF f] show ?thesis by simp
qed

lemma committed_fields [simp]:
  "currentState (committed w v) = v"
  "isDispatching (committed w v) = False"
  "currentListeners (committed w v) = nextListeners w"
  "nextListeners (committed w v) = nextListeners w"
  "passes (committed w v) = Suc (passes w)"
  "trace (committed w v) = trace w"
  "arrays (committed w v) = arrays w"
  "closures (committed w v) = closures w"
  "allocated (committed w v) = allocated w"
  "registry (committed w v) = registry w"
  by (simp_all add: committed_def registry_def)

lemma committed_wf: "wf w \<Longrightarrow> wf (committed w v)"
  by (auto simp: wf_def less_Suc_eq)

lemma committed_protected: "wf w \<Longrightarrow> protected (nextListeners w) (committed w v)"
  by (simp add: wf_def protected_def)

lemma pass_of_dispatch:
  assumes "wf w1" "notify n E st (passes w1) (nextListeners w1) 0 (committed w1 v) = r"
  shows "case r of
      Done u w' \<Rightarrow> pass_events (passes w1) (trace w') = registry w1
    | Threw e w' \<Rightarrow> (\<exists>k < length (registry w1).
          pass_events (passes w1) (trace w') = take (Suc k) (registry w1))
    | OutOfFuel \<Rightarrow> True"
proof -
  have fresh: "pass_events (passes w1) (trace (committed w1 v)) = []"
    using pass_events_fresh [OF assms(1), of "passes w1"] by simp
  from assms(2) have e: "exec n E (NotifyLoop st (passes w1) (nextListeners w1) 0 (committed w1 v)) = r"
    by (simp add: notify_def)
  from notify_pass [OF e committed_protected [OF assms(1)]] fresh show ?thesis
    by (auto simp: registry_def split: res.splits)
qed

subsection \<open>Dispatch from outside\<close>

lemma dispatch_steps:
  assumes "\<not> isDispatching w" "valid_action a"
  shows "dispatch (Suc n) E st w a =
     (case reducer_call n E st w a of
        OutOfFuel \<Rightarrow> OutOfFuel
      | Threw e w1 \<Rightarrow> Threw e (w1\<lparr>isDispatching := False\<rparr>)
      | Done v w1 \<Rightarrow>
          (case notify n E st (passes w1) (nextListeners w1) 0 (committed w1 v) of
             OutOfFuel \<Rightarrow> OutOfFuel
           | Threw e w4 \<Rightarrow> Threw e w4
           | Done u w4 \<Rightarrow> Done a w4))"
  using assms
  by (simp add: dispatch_Suc reducer_call_def committed_def valid_action_def Let_def
      split: res.splits)

lemma valid_init [simp]: "valid_action init_action"
  by (simp add: valid_action_def init_action_def get_prop_def)

lemma dispatch_invalid:
  "\<not> valid_action a \<Longrightarrow> \<exists>e. dispatch (Suc n) E st w a = Threw e w \<and> InvalidActionError e"
  by (auto simp: dispatch_Suc valid_action_def InvalidActionError_def)

lemma dispatch_reentrant:
  "valid_action a \<Longrightarrow> isDispatching w \<Longrightarrow>
   dispatch (Suc n) E st w a =
     Threw (Error ''Reducers may not dispatch actions.'') (w\<lparr>trace := trace w @ [FlagRead st True]\<rparr>)"
  by (auto simp: dispatch_Suc valid_action_def Let_def)

lemma dispatch_quiet:
  assumes "E (currentReducer w) [currentState w, a] = Return v" "\<not> isDispatching w"
    "valid_action a" "registry w = []"
  shows "\<exists>w'. dispatch (Suc (Suc n)) E st w a = Done a w' \<and> currentState w' = v \<and>
           \<not> isDispatching w' \<and> registry w' = [] \<and> currentReducer w' = currentReducer w"
  using assms
  by (simp add: dispatch_steps reducer_call_def run_Suc notify_Suc committed_def registry_def)

lemma dispatch_all_fold:
  assumes "\<forall>s a. E r [s, a] = Return (f s a)" "\<forall>a\<in>set as. valid_action a"
    "currentReducer w = r" "\<not> isDispatching w" "registry w = []"
  shows "\<exists>w'. dispatch_all (Suc (Suc n)) E w as = Done (folds f (currentState w) as) w' \<and>
           getState w' = foldl f (currentState w) as"
  using assms(2-)
proof (induction as arbitrary: w)
  case Nil
  then show ?case by (simp add: getState_def)
next
  case (Cons a as)
  from Cons.prems assms(1) have "E (currentReducer w) [currentState w, a] = Return (f (currentState w) a)"
    by simp
  from dispatch_quiet [of E w a "f (currentState w) a" n "[]"] this Cons.prems obtain w1 where w1:
    "dispatch (Suc (Suc n)) E [] w a = Done a w1" "currentState w1 = f (currentState w) a"
    "\<not> isDispatching w1" "registry w1 = []" "currentReducer w1 = r"
    by auto
  from Cons.IH [of w1] Cons.prems w1 obtain w' where
    "dispatch_all (Suc (Suc n)) E w1 as = Done (folds f (currentState w1) as) w'"
    "getState w' = foldl f (currentState w1) as"
    by auto
  with w1 show ?case
    by (simp add: getState_def)
qed

text \<open>
  Claim C1. With no enhancer (the preloaded state is not a function and the third
  argument is \<open>undefined\<close>) and a reducer that computes a function \<open>f\<close> of the state
  and the action, \<open>createStore\<close> returns a store whose state is \<open>f(s0, INIT)\<close>, for
  any preloaded state \<open>s0\<close>, \<open>undefined\<close> included. A caller that then dispatches
  valid actions \<open>a1, \<dots>, an\<close> in order is returned to each time, reads after the
  \<open>i\<close>-th dispatch the left fold of \<open>f\<close> over \<open>a1, \<dots>, ai\<close> from \<open>f(s0, INIT)\<close>,
  and at the end the fold over the whole list: the state is a function of \<open>f\<close>,
  \<open>s0\<close> and the actions and of nothing else. Two units of fuel suffice for every
  call.
\<close>

theorem state_is_fold_of_reducer:
  assumes "\<forall>s a. E r [s, a] = Return (f s a)"
    and "typeof s0 \<noteq> ''function''"
    and "list_all valid_action as"
  shows "\<exists>w0 w. createStore (Suc (Suc n)) E (Fn r) s0 Undefined = Created w0 \<and>
           getState w0 = f s0 init_action \<and>
           dispatch_all (Suc (Suc m)) E w0 as = Done (folds f (f s0 init_action) as) w \<and>
           getState w = foldl f (f s0 init_action) as"
proof -
  have "E (currentReducer (init_store r s0)) [currentState (init_store r s0), init_action]
      = Return (f s0 init_action)"
    using assms(1) by (simp add: init_store_def)
  from dispatch_quiet [of E "init_store r s0" init_action "f s0 init_action" n "[]"] this
  obtain w0 where w0:
    "dispatch (Suc (Suc n)) E [] (init_store r s0) init_action = Done init_action w0"
    "currentState w0 = f s0 init_action" "\<not> isDispatching w0" "registry w0 = []"
    "currentReducer w0 = r"
    by (auto simp: init_store_def registry_def)
  from assms(2) w0(1) have c: "createStore (Suc (Suc n)) E (Fn r) s0 Undefined = Created w0"
    by (simp add: createStore_def Let_def)
  from assms(3) have "\<forall>a\<in>set as. valid_action a"
    by (simp add: list_all_iff)
  with dispatch_all_fold [of E r f as w0 m] assms(1) w0 c show ?thesis
    by (auto simp: getState_def)
qed

subsection \<open>More fuel changes no result\<close>

lemma more_fuel_step:
  "(\<forall>st w a. dispatch n E st w a \<noteq> OutOfFuel \<longrightarrow> dispatch (Suc n) E st w a = dispatch n E st w a) \<and>
   (\<forall>st p l i w. notify n E st p l i w \<noteq> OutOfFuel \<longrightarrow>
      notify (Suc n) E st p l i w = notify n E st p l i w) \<and>
   (\<forall>st w b. run n E st w b \<noteq> OutOfFuel \<longrightarrow> run (Suc n) E st w b = run n E st w b)"
proof (induction n)
  case 0
  show ?case by (simp add: exec_0)
next
  case (Suc n)
  have D: "dispatch (Suc n) E st w a = r" if "dispatch n E st w a = r" "r \<noteq> OutOfFuel"
    for st w a r using that Suc by auto
  have N: "notify (Suc n) E st p l i w = r" if "notify n E st p l i w = r" "r \<noteq> OutOfFuel"
    for st p l i w r using that Suc by auto
  have R: "run (Suc n) E st w b = r" if "run n E st w b = r" "r \<noteq> OutOfFuel"
    for st w b r using that Suc by auto
  have d: "dispatch (Suc (Suc n)) E st w a = dispatch (Suc n) E st w a"
    if ne: "dispatch (Suc n) E st w a \<noteq> OutOfFuel" for st w a
  proof (cases "valid_action a \<and> \<not> isDispatching w")
    case False
    then show ?thesis
      by (auto simp: dispatch_Suc valid_action_def Let_def)
  next
    case True
    then have v: "\<not> isDispatching w" "valid_action a" by simp_all
    note s1 = dispatch_steps [OF v, of n E st] and s2 = dispatch_steps [OF v, of "Suc n" E st]
    show ?thesis
    proof (cases "reducer_call n E st w a")
      case OutOfFuel
      with ne s1 show ?thesis by simp
    next
      case (Threw e w1)
      then have "reducer_call (Suc n) E st w a = Threw e w1"
        unfolding reducer_call_def by (rule R) simp
      with Threw s1 s2 show ?thesis by simp
    next
      case (Done x w1)
      then have r: "reducer_call (Suc n) E st w a = Done x w1"
        unfolding reducer_call_def by (rule R) simp
      let ?p = "notify n E st (passes w1) (nextListeners w1) 0 (committed w1 x)"
      from ne s1 Done have "?p \<noteq> OutOfFuel"
        by (auto split: res.splits)
      from N [OF refl this] Done r s1 s2 show ?thesis by simp
    qed
  qed
  have nt: "notify (Suc (Suc n)) E st p l i w = notify (Suc n) E st p l i w"
    if ne: "notify (Suc n) E st p l i w \<noteq> OutOfFuel" for st p l i w
  proof (cases "i < length (arrays w l)")
    case False
    then show ?thesis by (simp add: notify_Suc)
  next
    case True
    let ?f = "arrays w l ! i"
    let ?r = "run n E (InListener ?f # st) (w\<lparr>trace := trace w @ [Invoked p ?f]\<rparr>) (E ?f [])"
    show ?thesis
    proof (cases ?r)
      case OutOfFuel
      with ne True show ?thesis by (simp add: notify_Suc Let_def)
    next
      case (Threw e w1)
      from R [OF this] Threw True show ?thesis
        by (simp add: notify_Suc Let_def)
    next
      case (Done x w1)
      with ne True have "notify n E st p l (i + 1) w1 \<noteq> OutOfFuel"
        by (simp add: notify_Suc Let_def)
      from N [OF refl this] R [OF Done] Done True show ?thesis
        by (simp add: notify_Suc Let_def)
    qed
  qed
  have r: "run (Suc (Suc n)) E st w b = run (Suc n) E st w b"
    if ne: "run (Suc n) E st w b \<noteq> OutOfFuel" for st w b
  proof (cases b)
    case (Return v)
    then show ?thesis by (simp add: run_Suc)
  next
    case (Throw e)
    then show ?thesis by (simp add: run_Suc)
  next
    case (GetState k)
    with ne have "run n E st w (k (getState w)) \<noteq> OutOfFuel"
      by (simp add: run_Suc)
    from R [OF refl this] GetState show ?thesis by (simp add: run_Suc)
  next
    case (Dispatch a k)
    show ?thesis
    proof (cases "dispatch n E st w a")
      case OutOfFuel
      with ne Dispatch show ?thesis by (simp add: run_Suc)
    next
      case (Threw e w1)
      from D [OF this] Threw Dispatch show ?thesis by (simp add: run_Suc)
    next
      case (Done x w1)
      with ne Dispatch have "run n E st w1 (k x) \<noteq> OutOfFuel"
        by (simp add: run_Suc)
      from R [OF refl this] D [OF Done] Done Dispatch show ?thesis by (simp add: run_Suc)
    qed
  next
    case (Subscribe x k)
    show ?thesis
    proof (cases "subscribe w x")
      case (Inl e)
      with Subscribe show ?thesis by (simp add: run_Suc)
    next
      case (Inr hw)
      obtain h w1 where hw: "hw = (h, w1)" by (cases hw)
      with ne Subscribe Inr have "run n E st w1 (k h) \<noteq> OutOfFuel"
        by (simp add: run_Suc)
      from R [OF refl this] Subscribe Inr hw show ?thesis by (simp add: run_Suc)
    qed
  next
    case (Unsubscribe h b1)
    show ?thesis
    proof (cases "unsubscribe w h")
      case (Inl e)
      with Unsubscribe show ?thesis by (simp add: run_Suc)
    next
      case (Inr w1)
      with ne Unsubscribe have "run n E st w1 b1 \<noteq> OutOfFuel"
        by (simp add: run_Suc)
      from R [OF refl this] Unsubscribe Inr show ?thesis by (simp add: run_Suc)
    qed
  next
    case (ReplaceReducer x b1)
    show ?thesis
    proof (cases "\<exists>f. x = Fn f")
      case False
      with ReplaceReducer show ?thesis by (cases x) (simp_all add: run_Suc)
    next
      case True
      then obtain f where f: "x = Fn f" by blast
      show ?thesis
      proof (cases "dispatch n E st (w\<lparr>currentReducer := f\<rparr>) init_action")
        case OutOfFuel
        with ne ReplaceReducer f show ?thesis by (simp add: run_Suc)
      next
        case (Threw e w1)
        from D [OF this] Threw ReplaceReducer f show ?thesis by (simp add: run_Suc)
      next
        case (Done y w1)
        with ne ReplaceReducer f have "run n E st w1 b1 \<noteq> OutOfFuel"
          by (simp add: run_Suc)
        from R [OF refl this] D [OF Done] Done ReplaceReducer f show ?thesis by (simp add: run_Suc)
      qed
    qed
  next
    case (TryCatch b1 k handler)
    show ?thesis
    proof (cases "run n E st w b1")
      case OutOfFuel
      with ne TryCatch show ?thesis by (simp add: run_Suc)
    next
      case (Threw e w1)
      with ne TryCatch have "run n E st w1 (handler e) \<noteq> OutOfFuel"
        by (simp add: run_Suc)
      from R [OF refl this] R [OF Threw] Threw TryCatch show ?thesis by (simp add: run_Suc)
    next
      case (Done y w1)
      with ne TryCatch have "run n E st w1 (k y) \<noteq> OutOfFuel"
        by (simp add: run_Suc)
      from R [OF refl this] R [OF Done] Done TryCatch show ?thesis by (simp add: run_Suc)
    qed
  qed
  from d nt r show ?case by blast
qed

lemma exec_more_fuel: "exec n E c \<noteq> OutOfFuel \<Longrightarrow> exec (n + k) E c = exec n E c"
proof (induction k)
  case 0
  then show ?case by simp
next
  case (Suc k)
  then have ne: "exec (n + k) E c \<noteq> OutOfFuel" by simp
  have "exec (Suc (n + k)) E c = exec (n + k) E c"
  proof (cases c)
    case (DispatchCall st w a)
    with ne more_fuel_step [of "n + k" E] show ?thesis
      by (simp add: dispatch_def del: exec.simps)
  next
    case (NotifyLoop st p l i w)
    with ne more_fuel_step [of "n + k" E] show ?thesis
      by (simp add: notify_def del: exec.simps)
  next
    case (RunBody st w b)
    with ne more_fuel_step [of "n + k" E] show ?thesis
      by (simp add: run_def del: exec.simps)
  qed
  with Suc show ?case by simp
qed

subsection \<open>Calls that come back\<close>

lemma run_more_fuel: "run n E st w b = Done v w' \<Longrightarrow> n \<le> m \<Longrightarrow> run m E st w b = Done v w'"
  using exec_more_fuel [of n E "RunBody st w b" "m - n"] by (simp add: run_def)

lemma run_more_fuel_threw: "run n E st w b = Threw e w' \<Longrightarrow> n \<le> m \<Longrightarrow> run m E st w b = Threw e w'"
  using exec_more_fuel [of n E "RunBody st w b" "m - n"] by (simp add: run_def)

lemma notify_end: "length (arrays w l) \<le> i \<Longrightarrow> notify (Suc n) E st p l i w = Done Undefined w"
  by (simp add: notify_Suc)

lemma notify_step_done:
  "i < length (arrays w l) \<Longrightarrow>
   run n E (InListener (arrays w l ! i) # st) (w\<lparr>trace := trace w @ [Invoked p (arrays w l ! i)]\<rparr>)
     (E (arrays w l ! i) []) = Done v w2 \<Longrightarrow>
   notify (Suc n) E st p l i w = notify n E st p l (Suc i) w2"
  by (simp add: notify_Suc Let_def)

lemma notify_step_threw:
  "i < length (arrays w l) \<Longrightarrow>
   run n E (InListener (arrays w l ! i) # st) (w\<lparr>trace := trace w @ [Invoked p (arrays w l ! i)]\<rparr>)
     (E (arrays w l ! i) []) = Threw e w2 \<Longrightarrow>
   notify (Suc n) E st p l i w = Threw e w2"
  by (simp add: notify_Suc Let_def)

lemma pass_returns:
  assumes "protected l w" "p < passes w" "P w"
    and "\<forall>f\<in>set (drop i (arrays w l)). listener_returns E st p P f"
  shows "\<exists>N u w'. (\<forall>n\<ge>N. notify n E st p l i w = Done u w') \<and> P w' \<and>
           pass_events p (trace w') = pass_events p (trace w) @ drop i (arrays w l) \<and>
           arrays w' l = arrays w l \<and> protected l w'"
  using assms
proof (induction "length (arrays w l) - i" arbitrary: i w)
  case 0
  then have "\<forall>n\<ge>Suc 0. notify n E st p l i w = Done Undefined w"
    by (auto simp: notify_end dest!: Suc_le_D)
  with 0 show ?case
    by (intro exI [of _ "Suc 0"] exI [of _ Undefined] exI [of _ w]) simp
next
  case (Suc d)
  let ?f = "arrays w l ! i"
  let ?w1 = "w\<lparr>trace := trace w @ [Invoked p ?f]\<rparr>"
  from Suc.hyps(2) have i: "i < length (arrays w l)" by simp
  then have dr: "drop i (arrays w l) = ?f # drop (Suc i) (arrays w l)"
    by (simp add: Cons_nth_drop_Suc)
  with Suc.prems(4) have "listener_returns E st p P ?f" by simp
  with Suc.prems(3) obtain n1 v w2 where
    call: "run n1 E (InListener ?f # st) ?w1 (E ?f []) = Done v w2" and P2: "P w2"
    unfolding listener_returns_def by blast
  have p1: "protected l ?w1" "p < passes ?w1"
    using Suc.prems by simp_all
  from call have "final (exec n1 E (RunBody (InListener ?f # st) ?w1 (E ?f []))) = Some w2"
    by (simp add: run_def)
  from listener_call [OF this p1] have w2: "protected l w2" "arrays w2 l = arrays w l"
    "p < passes w2" "pass_events p (trace w2) = pass_events p (trace w) @ [?f]"
    by simp_all
  have d: "d = length (arrays w2 l) - Suc i"
    using Suc.hyps(2) w2(2) by simp
  have rest: "\<forall>f\<in>set (drop (Suc i) (arrays w2 l)). listener_returns E st p P f"
    using Suc.prems(4) dr w2(2) by simp
  from Suc.hyps(1) [OF d w2(1) w2(3) P2 rest] obtain N2 u w' where
    tail: "\<forall>n\<ge>N2. notify n E st p l (Suc i) w2 = Done u w'" and Pw: "P w'"
    and ev: "pass_events p (trace w') = pass_events p (trace w2) @ drop (Suc i) (arrays w2 l)"
    and fr: "arrays w' l = arrays w2 l" "protected l w'"
    by blast
  have "\<forall>n\<ge>Suc (max n1 N2). notify n E st p l i w = Done u w'"
  proof (intro allI impI)
    fix n assume "Suc (max n1 N2) \<le> n"
    then obtain m where m: "n = Suc m" "n1 \<le> m" "N2 \<le> m"
      by (cases n) auto
    from run_more_fuel [OF call m(2)] i have "notify (Suc m) E st p l i w = notify m E st p l (Suc i) w2"
      by (rule notify_step_done [rotated])
    with tail m show "notify n E st p l i w = Done u w'" by simp
  qed
  moreover have "pass_events p (trace w') = pass_events p (trace w) @ drop i (arrays w l)"
    using ev w2 dr by simp
  ultimately show ?case
    using Pw fr w2(2) by (intro exI [of _ "Suc (max n1 N2)"] exI [of _ u] exI [of _ w']) simp
qed

lemma pass_throws_at:
  assumes "protected l w" "p < passes w" "P w" "i \<le> k" "k < length (arrays w l)"
    and "\<forall>j. i \<le> j \<and> j < k \<longrightarrow> listener_returns E st p P (arrays w l ! j)"
    and "listener_throws E st p P Q e (arrays w l ! k)"
  shows "\<exists>N w'. (\<forall>n\<ge>N. notify n E st p l i w = Threw e w') \<and> Q w' \<and>
           pass_events p (trace w') = pass_events p (trace w) @ take (Suc k - i) (drop i (arrays w l)) \<and>
           arrays w' l = arrays w l \<and> protected l w'"
  using assms
proof (induction "k - i" arbitrary: i w)
  case 0
  then have ik: "i = k" by simp
  let ?f = "arrays w l ! k"
  let ?w1 = "w\<lparr>trace := trace w @ [Invoked p ?f]\<rparr>"
  from 0 obtain n1 w2 where
    call: "run n1 E (InListener ?f # st) ?w1 (E ?f []) = Threw e w2" and Q2: "Q w2"
    unfolding listener_throws_def by blast
  have p1: "protected l ?w1" "p < passes ?w1"
    using 0 by simp_all
  from call have "final (exec n1 E (RunBody (InListener ?f # st) ?w1 (E ?f []))) = Some w2"
    by (simp add: run_def)
  from listener_call [OF this p1] have w2: "protected l w2" "arrays w2 l = arrays w l"
    "p < passes w2" "pass_events p (trace w2) = pass_events p (trace w) @ [?f]"
    by simp_all
  have dr: "drop k (arrays w l) = ?f # drop (Suc k) (arrays w l)"
    using 0 by (simp add: Cons_nth_drop_Suc)
  have "\<forall>n\<ge>Suc n1. notify n E st p l i w = Threw e w2"
  proof (intro allI impI)
    fix n assume "Suc n1 \<le> n"
    then obtain m where m: "n = Suc m" "n1 \<le> m"
      by (cases n) auto
    from run_more_fuel_threw [OF call m(2)] 0(6) have "notify (Suc m) E st p l k w = Threw e w2"
      by (rule notify_step_threw [rotated])
    with m ik show "notify n E st p l i w = Threw e w2" by simp
  qed
  then show ?case
    using Q2 w2 dr ik by (intro exI [of _ "Suc n1"] exI [of _ w2]) simp
next
  case (Suc d)
  let ?f = "arrays w l ! i"
  let ?w1 = "w\<lparr>trace := trace w @ [Invoked p ?f]\<rparr>"
  from Suc.hyps(2) have ik: "i < k" by simp
  with Suc.prems have i: "i < length (arrays w l)" by simp
  then have dr: "drop i (arrays w l) = ?f # drop (Suc i) (arrays w l)"
    by (simp add: Cons_nth_drop_Suc)
  from Suc.prems(6) ik have "listener_returns E st p P ?f" by simp
  with Suc.prems(3) obtain n1 v w2 where
    call: "run n1 E (InListener ?f # st) ?w1 (E ?f []) = Done v w2" and P2: "P w2"
    unfolding listener_returns_def by blast
  have p1: "protected l ?w1" "p < passes ?w1"
    using Suc.prems by simp_all
  from call have "final (exec n1 E (RunBody (InListener ?f # st) ?w1 (E ?f []))) = Some w2"
    by (simp add: run_def)
  from listener_call [OF this p1] have w2: "protected l w2" "arrays w2 l = arrays w l"
    "p < passes w2" "pass_events p (trace w2) = pass_events p (trace w) @ [?f]"
    by simp_all
  have d: "d = k - Suc i"
    using Suc.hyps(2) by simp
  have a: "Suc i \<le> k" "k < length (arrays w2 l)"
    "\<forall>j. Suc i \<le> j \<and> j < k \<longrightarrow> listener_returns E st p P (arrays w2 l ! j)"
    "listener_throws E st p P Q e (arrays w2 l ! k)"
    using ik Suc.prems w2(2) by simp_all
  from Suc.hyps(1) [OF d w2(1) w2(3) P2 a] obtain N2 w' where
    tail: "\<forall>n\<ge>N2. notify n E st p l (Suc i) w2 = Threw e w'" and Qw: "Q w'"
    and ev: "pass_events p (trace w') = pass_events p (trace w2) @ take (Suc k - Suc i) (drop (Suc i) (arrays w2 l))"
    and fr: "arrays w' l = arrays w2 l" "protected l w'"
    by blast
  have "\<forall>n\<ge>Suc (max n1 N2). notify n E st p l i w = Threw e w'"
  proof (intro allI impI)
    fix n assume "Suc (max n1 N2) \<le> n"
    then obtain m where m: "n = Suc m" "n1 \<le> m" "N2 \<le> m"
      by (cases n) auto
    from run_more_fuel [OF call m(2)] i have "notify (Suc m) E st p l i w = notify m E st p l (Suc i) w2"
      by (rule notify_step_done [rotated])
    with tail m show "notify n E st p l i w = Threw e w'" by simp
  qed
  moreover have "take (Suc k - i) (drop i (arrays w l)) = ?f # take (Suc k - Suc i) (drop (Suc i) (arrays w l))"
    using ik dr by (simp add: Suc_diff_le)
  then have "pass_events p (trace w') = pass_events p (trace w) @ take (Suc k - i) (drop i (arrays w l))"
    using ev w2 by simp
  ultimately show ?case
    using Qw fr w2(2) by (intro exI [of _ "Suc (max n1 N2)"] exI [of _ w']) simp
qed

lemma reducer_call_more_fuel:
  "reducer_call m E st w a = Done v w1 \<Longrightarrow> m \<le> n \<Longrightarrow> reducer_call n E st w a = Done v w1"
  unfolding reducer_call_def by (rule run_more_fuel)

lemma dispatch_returns:
  assumes "wf w" "\<not> isDispatching w" "valid_action a" "reducer_call m E st w a = Done v w1"
    "P (committed w1 v)" "\<forall>f\<in>set (registry w1). listener_returns E st (passes w1) P f"
  shows "\<exists>N w'. (\<forall>n\<ge>N. dispatch n E st w a = Done a w') \<and> P w' \<and> wf w' \<and>
           \<not> isDispatching w' \<and>
           pass_events (passes w1) (trace w') = registry w1 \<and>
           ((\<forall>st'. FlagRead st' False \<notin> set (new_events (committed w1 v) w')) \<longrightarrow> getState w' = v)"
proof -
  from reducer_call_facts [OF assms(4) _ assms(1,2)] have wf1: "wf w1"
    by simp
  have fresh: "pass_events (passes w1) (trace (committed w1 v)) = []"
    using pass_events_fresh [OF wf1, of "passes w1"] by simp
  have ls: "\<forall>f\<in>set (drop 0 (arrays (committed w1 v) (nextListeners w1))).
      listener_returns E st (passes w1) P f"
    using assms(6) by (simp add: registry_def)
  from pass_returns [OF committed_protected [OF wf1] _ assms(5) ls] obtain N u w' where
    p: "\<forall>n\<ge>N. notify n E st (passes w1) (nextListeners w1) 0 (committed w1 v) = Done u w'"
    and Pw: "P w'"
    and ev: "pass_events (passes w1) (trace w') = registry w1"
    using fresh by (auto simp: registry_def)
  have d: "\<forall>n\<ge>Suc (max m N). dispatch n E st w a = Done a w'"
  proof (intro allI impI)
    fix n assume "Suc (max m N) \<le> n"
    then obtain k where k: "n = Suc k" "m \<le> k" "N \<le> k"
      by (cases n) auto
    from reducer_call_more_fuel [OF assms(4) k(2)] p k(3) show "dispatch n E st w a = Done a w'"
      by (simp add: k(1) dispatch_steps [OF assms(2,3)])
  qed
  then have "final (dispatch (Suc (max m N)) E st w a) = Some w'"
    by simp
  then have "final (exec (Suc (max m N)) E (DispatchCall st w a)) = Some w'"
    unfolding dispatch_def .
  from exec_wf [OF this] assms(1) have wf': "wf w'"
    by simp
  from p have "notify N E st (passes w1) (nextListeners w1) 0 (committed w1 v) = Done u w'"
    by simp
  then have f: "final (exec N E (NotifyLoop st (passes w1) (nextListeners w1) 0 (committed w1 v))) = Some w'"
    by (simp add: notify_def)
  from exec_flag [OF f] have flag: "\<not> isDispatching w'"
    by simp
  from exec_state_change [OF f]
  have "(\<forall>st'. FlagRead st' False \<notin> set (new_events (committed w1 v) w')) \<longrightarrow> getState w' = v"
    by (auto simp: getState_def)
  with d Pw ev wf' flag show ?thesis
    by blast
qed

lemma dispatch_throws_at:
  assumes "wf w" "\<not> isDispatching w" "valid_action a" "reducer_call m E st w a = Done v w1"
    "P (committed w1 v)" "k < length (registry w1)"
    "\<forall>j<k. listener_returns E st (passes w1) P (registry w1 ! j)"
    "listener_throws E st (passes w1) P Q e (registry w1 ! k)"
  shows "\<exists>N w'. (\<forall>n\<ge>N. dispatch n E st w a = Threw e w') \<and> Q w' \<and> wf w' \<and>
           \<not> isDispatching w' \<and>
           pass_events (passes w1) (trace w') = take (Suc k) (registry w1) \<and>
           ((\<forall>st'. FlagRead st' False \<notin> set (new_events (committed w1 v) w')) \<longrightarrow> getState w' = v)"
proof -
  from reducer_call_facts [OF assms(4) _ assms(1,2)] have wf1: "wf w1"
    by simp
  have fresh: "pass_events (passes w1) (trace (committed w1 v)) = []"
    using pass_events_fresh [OF wf1, of "passes w1"] by simp
  have a: "0 \<le> k" "k < length (arrays (committed w1 v) (nextListeners w1))"
    "\<forall>j. 0 \<le> j \<and> j < k \<longrightarrow>
       listener_returns E st (passes w1) P (arrays (committed w1 v) (nextListeners w1) ! j)"
    "listener_throws E st (passes w1) P Q e (arrays (committed w1 v) (nextListeners w1) ! k)"
    using assms(6,7,8) by (simp_all add: registry_def)
  from pass_throws_at [OF committed_protected [OF wf1] _ assms(5) a] obtain N w' where
    p: "\<forall>n\<ge>N. notify n E st (passes w1) (nextListeners w1) 0 (committed w1 v) = Threw e w'"
    and Qw: "Q w'"
    and ev: "pass_events (passes w1) (trace w') = take (Suc k) (registry w1)"
    using fresh by (auto simp: registry_def)
  have d: "\<forall>n\<ge>Suc (max m N). dispatch n E st w a = Threw e w'"
  proof (intro allI impI)
    fix n assume "Suc (max m N) \<le> n"
    then obtain k where k: "n = Suc k" "m \<le> k" "N \<le> k"
      by (cases n) auto
    from reducer_call_more_fuel [OF assms(4) k(2)] p k(3) show "dispatch n E st w a = Threw e w'"
      by (simp add: k(1) dispatch_steps [OF assms(2,3)])
  qed
  then have "final (dispatch (Suc (max m N)) E st w a) = Some w'"
    by simp
  then have "final (exec (Suc (max m N)) E (DispatchCall st w a)) = Some w'"
    unfolding dispatch_def .
  from exec_wf [OF this] assms(1) have wf': "wf w'"
    by simp
  from p have "notify N E st (passes w1) (nextListeners w1) 0 (committed w1 v) = Threw e w'"
    by simp
  then have f: "final (exec N E (NotifyLoop st (passes w1) (nextListeners w1) 0 (committed w1 v))) = Some w'"
    by (simp add: notify_def)
  from exec_flag [OF f] have flag: "\<not> isDispatching w'"
    by simp
  from exec_state_change [OF f]
  have "(\<forall>st'. FlagRead st' False \<notin> set (new_events (committed w1 v) w')) \<longrightarrow> getState w' = v"
    by (auto simp: getState_def)
  with d Qw ev wf' flag show ?thesis
    by blast
qed

lemma in_reducer_simps [simp]:
  "in_reducer (DispatchCall st w a) = isDispatching w"
  "in_reducer (RunBody st w b) = isDispatching w"
  "in_reducer (NotifyLoop st p l i w) = False"
  by (simp_all add: in_reducer_def)

lemma exec_in_reducer:
  "final (exec n E c) = Some w' \<Longrightarrow> in_reducer c \<Longrightarrow>
   (\<exists>evs. trace w' = trace (store_of c) @ evs \<and> set evs \<subseteq> {FlagRead (stack_of c) True})"
proof (induction n arbitrary: c w')
  case 0
  then show ?case by simp
next
  case (Suc n)
  have D: "exec n E c = Done v w1 \<Longrightarrow> in_reducer c \<Longrightarrow>
     isDispatching w1 = isDispatching (store_of c) \<and>
     (\<exists>evs. trace w1 = trace (store_of c) @ evs \<and> set evs \<subseteq> {FlagRead (stack_of c) True})" for c v w1
    using Suc.IH [of c w1] exec_flag [of n E c w1] by simp
  have T: "exec n E c = Threw e w1 \<Longrightarrow> in_reducer c \<Longrightarrow>
     isDispatching w1 = isDispatching (store_of c) \<and>
     (\<exists>evs. trace w1 = trace (store_of c) @ evs \<and> set evs \<subseteq> {FlagRead (stack_of c) True})" for c e w1
    using Suc.IH [of c w1] exec_flag [of n E c w1] by simp
  show ?case
  proof (cases c)
    case (DispatchCall st w action)
    show ?thesis using Suc.prems unfolding DispatchCall
      by (auto simp: Let_def split: if_splits)
  next
    case (NotifyLoop st p la i w)
    show ?thesis using Suc.prems unfolding NotifyLoop
      by simp
  next
    case (RunBody st w b)
    show ?thesis using Suc.prems unfolding RunBody
      by (cases b) (fastforce simp: Let_def getState_def
          split: if_splits res.splits sum.splits jsval.splits
          dest!: D T Suc.IH subscribe_fields unsubscribe_fields)+
  qed
qed

subsection \<open>The claims\<close>

lemma valid_inc [simp]: "valid_action inc_action"
  by (simp add: valid_action_def inc_action_def get_prop_def)

lemma wf_init [simp]: "wf (init_store r s)"
  by (simp add: wf_def init_store_def registry_def)

lemma subscribed_wf [simp]: "wf w \<Longrightarrow> wf (subscribed w l)"
  by (auto simp: subscribed_def dest: subscribe_wf split: sum.splits)

lemma subscribed_Fn:
  "subscribed w (Fn f) =
     (ensureCanMutateNextListeners w)
        \<lparr>arrays := (arrays (ensureCanMutateNextListeners w))
            (nextListeners (ensureCanMutateNextListeners w) := registry w @ [f]),
         closures := closures w @ [(f, True)]\<rparr>"
  by (simp add: subscribed_def subscribe_registry)

lemmas eval_store = dispatch_Suc run_Suc notify_Suc exec_0 eval_nat_numeral get_prop_def getState_def
  init_store_def init_action_def inc_action_def ActionTypes_INIT_def subscribed_Fn
  ensureCanMutateNextListeners_def registry_def Let_def

theorem state_is_fold_witness:
  "(\<forall>s a. redispatch_env 0 [s, a] = Return (counter s a))
   \<and> typeof Undefined \<noteq> ''function''
   \<and> list_all valid_action [inc_action, inc_action]
   \<and> (\<exists>w0 w. createStore (Suc (Suc 0)) redispatch_env (Fn 0) Undefined Undefined = Created w0 \<and>
         getState w0 = Num 0 \<and>
         dispatch_all (Suc (Suc 0)) redispatch_env w0 [inc_action, inc_action] = Done [Num 1, Num 2] w \<and>
         getState w = Num 2)"
proof -
  have r: "\<forall>s a. redispatch_env 0 [s, a] = Return (counter s a)"
    by (simp add: redispatch_env_def)
  have v: "list_all valid_action [inc_action, inc_action]"
    by simp
  have c: "counter Undefined init_action = Num 0" "counter (Num 0) inc_action = Num 1"
     "counter (Num 1) inc_action = Num 2"
    by (simp_all add: inc_action_def get_prop_def)
  from state_is_fold_of_reducer [of redispatch_env 0 counter Undefined "[inc_action, inc_action]" 0 0] r v c
  show ?thesis
    by simp
qed

text \<open>
  Claim C4. \<open>dispatch(action)\<close> throws the invalid-action error when \<open>action\<close> is
  not a plain object (a string and an array among them) and when its \<open>type\<close> is absent
  or \<open>undefined\<close>, \<open>dispatch({})\<close> included. The store it leaves is the store it
  was called in, field for field: the state, the listener arrays, the flag and the trace
  are untouched, whatever the reducer and the listeners are and whether or not a dispatch
  is in progress, so the reducer has not been called.
\<close>

theorem invalid_action_rejected:
  "(\<not> isPlainObject a \<or> get_prop a ''type'' = Undefined \<longrightarrow>
      (\<exists>e. dispatch (Suc n) E st w a = Threw e w \<and> InvalidActionError e))
   \<and> (\<exists>e. dispatch (Suc n) E st w (Str s) = Threw e w \<and> InvalidActionError e)
   \<and> (\<exists>e. dispatch (Suc n) E st w (Arr xs) = Threw e w \<and> InvalidActionError e)
   \<and> (\<exists>e. dispatch (Suc n) E st w (Obj []) = Threw e w \<and> InvalidActionError e)"
proof (intro conjI impI)
  assume "\<not> isPlainObject a \<or> get_prop a ''type'' = Undefined"
  then have "\<not> valid_action a"
    by (auto simp: valid_action_def)
  then show "\<exists>e. dispatch (Suc n) E st w a = Threw e w \<and> InvalidActionError e"
    by (rule dispatch_invalid)
next
  show "\<exists>e. dispatch (Suc n) E st w (Str s) = Threw e w \<and> InvalidActionError e"
    by (rule dispatch_invalid) (simp add: valid_action_def)
  show "\<exists>e. dispatch (Suc n) E st w (Arr xs) = Threw e w \<and> InvalidActionError e"
    by (rule dispatch_invalid) (simp add: valid_action_def)
  show "\<exists>e. dispatch (Suc n) E st w (Obj []) = Threw e w \<and> InvalidActionError e"
    by (rule dispatch_invalid) (simp add: valid_action_def get_prop_def)
qed

theorem invalid_action_witness:
  "\<not> isPlainObject (Num 3)
   \<and> (\<exists>e. dispatch (Suc 0) redispatch_env [] (init_store 0 (Num 0)) (Num 3)
            = Threw e (init_store 0 (Num 0)) \<and> InvalidActionError e)
   \<and> get_prop (Obj [(''payload'', Num 1)]) ''type'' = Undefined
   \<and> (\<exists>e. dispatch (Suc 0) redispatch_env [] (init_store 0 (Num 0)) (Obj [(''payload'', Num 1)])
            = Threw e (init_store 0 (Num 0)) \<and> InvalidActionError e)"
proof -
  have h1: "\<not> isPlainObject (Num 3)"
    by simp
  have h2: "get_prop (Obj [(''payload'', Num 1)]) ''type'' = Undefined"
    by (simp add: get_prop_def)
  from invalid_action_rejected [of "Num 3" 0 redispatch_env "[]" "init_store 0 (Num 0)"] h1
    invalid_action_rejected [of "Obj [(''payload'', Num 1)]" 0 redispatch_env "[]" "init_store 0 (Num 0)"] h2
  show ?thesis
    by blast
qed

lemma dispatch_done:
  assumes "wf w" "\<not> isDispatching w" "valid_action a" "dispatch (Suc n) E st w a = Done u w'"
  shows "u = a \<and> (\<exists>v w1 x. reducer_call n E st w a = Done v w1 \<and>
           notify n E st (passes w1) (nextListeners w1) 0 (committed w1 v) = Done x w' \<and>
           getState (committed w1 v) = v \<and>
           pass_events (passes w1) (trace w') = registry w1)"
proof -
  from assms(4) dispatch_steps [OF assms(2,3), of n E st] obtain v w1 x where
    r: "reducer_call n E st w a = Done v w1"
    and p: "notify n E st (passes w1) (nextListeners w1) 0 (committed w1 v) = Done x w'"
    and u: "u = a"
    by (auto split: res.splits)
  from reducer_call_facts [OF r _ assms(1,2)] have wf1: "wf w1"
    by simp
  from pass_of_dispatch [OF wf1 p] have "pass_events (passes w1) (trace w') = registry w1"
    by simp
  then show ?thesis using r p u
    by (auto simp: getState_def)
qed


text \<open>
  Claim C10. The action \<open>{type: '@@redux/INIT'}\<close> is a valid action, and \<open>dispatch\<close>
  does with it what it does with any valid action: dispatched in the same store, it and
  any valid action for which the reducer has the same body leave the same store, throw
  the same error and both return the action dispatched. With no dispatch in progress,
  \<open>dispatch\<close> of it is the call of the current reducer with the current state and this
  action, under the flag, and then: the error of the reducer, with the flag cleared; or,
  the reducer having returned \<open>v\<close>, the pass over the "next" registry from the store in
  which \<open>v\<close> is the state. And it returns: when the reducer call returns \<open>v\<close> and every
  listener of the registry returns from the stores the pass calls it in (the stores of
  an invariant \<open>P\<close> that holds when the pass starts and that the listeners keep), every
  \<open>dispatch\<close> with enough fuel returns the action, the flag clear, after a pass that
  called every listener of the registry as the reducer left it, in order, and the state
  is \<open>v\<close> unless a listener dispatched again. Last, a \<open>dispatch\<close> of it that returned has
  done all that.
\<close>

theorem init_action_not_special:
  "valid_action init_action
   \<and> get_prop init_action ''type'' = Str ''@@redux/INIT''
   \<and> (valid_action a \<and>
        E (currentReducer w) [currentState w, a] = E (currentReducer w) [currentState w, init_action] \<longrightarrow>
          final (dispatch n E st w init_action) = final (dispatch n E st w a) \<and>
          thrown (dispatch n E st w init_action) = thrown (dispatch n E st w a) \<and>
          returned (dispatch n E st w init_action) =
            map_option (\<lambda>u. init_action) (returned (dispatch n E st w a)))
   \<and> (\<not> isDispatching w \<longrightarrow>
        reducer_call n E st w init_action =
          run n E (InReducer # st) (w\<lparr>trace := trace w @ [FlagRead st False], isDispatching := True\<rparr>)
            (E (currentReducer w) [currentState w, init_action]) \<and>
        dispatch (Suc n) E st w init_action =
          (case reducer_call n E st w init_action of
             OutOfFuel \<Rightarrow> OutOfFuel
           | Threw e w1 \<Rightarrow> Threw e (w1\<lparr>isDispatching := False\<rparr>)
           | Done v w1 \<Rightarrow>
               (case notify n E st (passes w1) (nextListeners w1) 0 (committed w1 v) of
                  OutOfFuel \<Rightarrow> OutOfFuel
                | Threw e w4 \<Rightarrow> Threw e w4
                | Done u w4 \<Rightarrow> Done init_action w4)))
   \<and> (wf w \<and> \<not> isDispatching w \<and> reducer_call m E st w init_action = Done v w1 \<and>
       P (committed w1 v) \<and> (\<forall>f\<in>set (registry w1). listener_returns E st (passes w1) P f) \<longrightarrow>
        getState (committed w1 v) = v \<and>
        (\<exists>N w'. (\<forall>k\<ge>N. dispatch k E st w init_action = Done init_action w') \<and> P w' \<and> wf w' \<and>
           \<not> isDispatching w' \<and>
           pass_events (passes w1) (trace w') = registry w1 \<and>
           ((\<forall>st'. FlagRead st' False \<notin> set (new_events (committed w1 v) w')) \<longrightarrow> getState w' = v)))
   \<and> (wf w \<and> \<not> isDispatching w \<and> dispatch (Suc n) E st w init_action = Done u w' \<longrightarrow>
        u = init_action \<and>
        (\<exists>v w1 x. reducer_call n E st w init_action = Done v w1 \<and>
           notify n E st (passes w1) (nextListeners w1) 0 (committed w1 v) = Done x w' \<and>
           getState (committed w1 v) = v \<and>
           pass_events (passes w1) (trace w') = registry w1))"
proof -
  have c1: "valid_action init_action"
    by simp
  have c2: "get_prop init_action ''type'' = Str ''@@redux/INIT''"
    by (simp add: init_action_def get_prop_def ActionTypes_INIT_def)
  have i: "isPlainObject init_action \<and> typeof (get_prop init_action ''type'') \<noteq> ''undefined''"
    using valid_init unfolding valid_action_def .
  have c3: "valid_action a \<and>
        E (currentReducer w) [currentState w, a] = E (currentReducer w) [currentState w, init_action] \<longrightarrow>
          final (dispatch n E st w init_action) = final (dispatch n E st w a) \<and>
          thrown (dispatch n E st w init_action) = thrown (dispatch n E st w a) \<and>
          returned (dispatch n E st w init_action) =
            map_option (\<lambda>u. init_action) (returned (dispatch n E st w a))"
  proof (cases n)
    case 0
    then show ?thesis by (simp add: exec_0)
  next
    case (Suc m)
    with i show ?thesis
      by (auto simp: dispatch_Suc Let_def valid_action_def split: res.splits)
  qed
  have c4: "\<not> isDispatching w \<longrightarrow>
        reducer_call n E st w init_action =
          run n E (InReducer # st) (w\<lparr>trace := trace w @ [FlagRead st False], isDispatching := True\<rparr>)
            (E (currentReducer w) [currentState w, init_action]) \<and>
        dispatch (Suc n) E st w init_action =
          (case reducer_call n E st w init_action of
             OutOfFuel \<Rightarrow> OutOfFuel
           | Threw e w1 \<Rightarrow> Threw e (w1\<lparr>isDispatching := False\<rparr>)
           | Done v w1 \<Rightarrow>
               (case notify n E st (passes w1) (nextListeners w1) 0 (committed w1 v) of
                  OutOfFuel \<Rightarrow> OutOfFuel
                | Threw e w4 \<Rightarrow> Threw e w4
                | Done u w4 \<Rightarrow> Done init_action w4))"
    using dispatch_steps [of w init_action n E st] by (simp add: reducer_call_def)
  have c5: "wf w \<and> \<not> isDispatching w \<and> reducer_call m E st w init_action = Done v w1 \<and>
       P (committed w1 v) \<and> (\<forall>f\<in>set (registry w1). listener_returns E st (passes w1) P f) \<longrightarrow>
        getState (committed w1 v) = v \<and>
        (\<exists>N w'. (\<forall>k\<ge>N. dispatch k E st w init_action = Done init_action w') \<and> P w' \<and> wf w' \<and>
           \<not> isDispatching w' \<and>
           pass_events (passes w1) (trace w') = registry w1 \<and>
           ((\<forall>st'. FlagRead st' False \<notin> set (new_events (committed w1 v) w')) \<longrightarrow> getState w' = v))"
    using dispatch_returns [of w init_action m E st v w1 P] by (simp add: getState_def)
  have c6: "wf w \<and> \<not> isDispatching w \<and> dispatch (Suc n) E st w init_action = Done u w' \<longrightarrow>
        u = init_action \<and>
        (\<exists>v w1 x. reducer_call n E st w init_action = Done v w1 \<and>
           notify n E st (passes w1) (nextListeners w1) 0 (committed w1 v) = Done x w' \<and>
           getState (committed w1 v) = v \<and>
           pass_events (passes w1) (trace w') = registry w1)"
    using dispatch_done [of w init_action n E st u w'] by simp
  show ?thesis
    by (intro conjI c1 c2 c3 c4 c5 c6)
qed

theorem init_action_witness:
  "valid_action (Obj [(''type'', Str ''OTHER'')])
   \<and> redispatch_env (currentReducer (subscribed (init_store 0 (Num 5)) (Fn 2)))
        [currentState (subscribed (init_store 0 (Num 5)) (Fn 2)), Obj [(''type'', Str ''OTHER'')]]
      = redispatch_env (currentReducer (subscribed (init_store 0 (Num 5)) (Fn 2)))
        [currentState (subscribed (init_store 0 (Num 5)) (Fn 2)), init_action]
   \<and> final (dispatch 5 redispatch_env [] (subscribed (init_store 0 (Num 5)) (Fn 2)) init_action)
      = final (dispatch 5 redispatch_env [] (subscribed (init_store 0 (Num 5)) (Fn 2))
          (Obj [(''type'', Str ''OTHER'')]))
   \<and> wf (subscribed (init_store 0 (Num 5)) (Fn 2))
   \<and> \<not> isDispatching (subscribed (init_store 0 (Num 5)) (Fn 2))
   \<and> returned (reducer_call 1 redispatch_env [] (subscribed (init_store 0 (Num 5)) (Fn 2)) init_action)
      = Some (Num 5)
   \<and> listener_returns redispatch_env [] 0 (\<lambda>w. currentState w = Num 5) 2
   \<and> (\<exists>N w'. (\<forall>k\<ge>N. dispatch k redispatch_env [] (subscribed (init_store 0 (Num 5)) (Fn 2)) init_action
                 = Done init_action w') \<and>
          currentState w' = Num 5 \<and> \<not> isDispatching w' \<and> pass_events 0 (trace w') = [2])
   \<and> returned (dispatch 5 redispatch_env [] (subscribed (init_store 0 (Num 5)) (Fn 2)) init_action)
      = Some init_action
   \<and> map_option getState
        (final (dispatch 5 redispatch_env [] (subscribed (init_store 0 (Num 5)) (Fn 2)) init_action))
      = Some (Num 5)
   \<and> map_option (\<lambda>w'. pass_events 0 (trace w'))
        (final (dispatch 5 redispatch_env [] (subscribed (init_store 0 (Num 5)) (Fn 2)) init_action))
      = Some [2]"
proof -
  let ?W = "subscribed (init_store 0 (Num 5)) (Fn 2)"
  let ?a = "Obj [(''type'', Str ''OTHER'')]"
  let ?P = "\<lambda>w. currentState w = Num 5"
  have v: "valid_action ?a"
    by (simp add: valid_action_def get_prop_def)
  have e: "redispatch_env (currentReducer ?W) [currentState ?W, ?a]
      = redispatch_env (currentReducer ?W) [currentState ?W, init_action]"
    by (simp add: eval_store redispatch_env_def)
  have w: "wf ?W"
    by simp
  have nd: "\<not> isDispatching ?W"
    by (simp add: eval_store)
  have d: "\<exists>w'. dispatch 5 redispatch_env [] ?W init_action = Done init_action w' \<and>
      getState w' = Num 5 \<and> pass_events 0 (trace w') = [2]"
    by (simp add: eval_store redispatch_env_def)
  from d obtain w' where d': "dispatch 5 redispatch_env [] ?W init_action = Done init_action w'"
    "getState w' = Num 5" "pass_events 0 (trace w') = [2]"
    by blast
  note A = init_action_not_special [where a = ?a and E = redispatch_env and w = ?W and n = 5 and st = "[]",
      THEN conjunct2, THEN conjunct2, THEN conjunct1, THEN mp]
  have "final (dispatch 5 redispatch_env [] ?W init_action) = final (dispatch 5 redispatch_env [] ?W ?a) \<and>
      thrown (dispatch 5 redispatch_env [] ?W init_action) = thrown (dispatch 5 redispatch_env [] ?W ?a) \<and>
      returned (dispatch 5 redispatch_env [] ?W init_action) =
        map_option (\<lambda>u. init_action) (returned (dispatch 5 redispatch_env [] ?W ?a))"
    by (rule A) (insert v e, simp)
  then have f: "final (dispatch 5 redispatch_env [] ?W init_action) = final (dispatch 5 redispatch_env [] ?W ?a)"
    by simp
  with d'(1) have f': "final (dispatch 5 redispatch_env [] ?W ?a) = Some w'"
    by simp
  have "\<exists>w1. reducer_call 1 redispatch_env [] ?W init_action = Done (Num 5) w1 \<and>
      registry w1 = [2] \<and> passes w1 = 0"
    by (simp add: reducer_call_def eval_store redispatch_env_def)
  then obtain w1 where r1: "reducer_call 1 redispatch_env [] ?W init_action = Done (Num 5) w1"
    and f1: "registry w1 = [2]" "passes w1 = 0"
    by blast
  have lr: "listener_returns redispatch_env [] 0 ?P 2"
    unfolding listener_returns_def
    by (intro allI impI exI [of _ "Suc (Suc 0)"]) (simp add: run_Suc redispatch_env_def getState_def)
  note B = init_action_not_special [where E = redispatch_env and w = ?W and m = 1 and st = "[]"
      and v = "Num 5" and ?w1.0 = w1 and P = ?P,
      THEN conjunct2, THEN conjunct2, THEN conjunct2, THEN conjunct2, THEN conjunct1, THEN mp]
  have "getState (committed w1 (Num 5)) = Num 5 \<and>
      (\<exists>N w'. (\<forall>k\<ge>N. dispatch k redispatch_env [] ?W init_action = Done init_action w') \<and> ?P w' \<and> wf w' \<and>
         \<not> isDispatching w' \<and>
         pass_events (passes w1) (trace w') = registry w1 \<and>
         ((\<forall>st'. FlagRead st' False \<notin> set (new_events (committed w1 (Num 5)) w')) \<longrightarrow>
            getState w' = Num 5))"
    by (rule B) (insert w nd r1 f1 lr, simp)
  then have t: "\<exists>N w'. (\<forall>k\<ge>N. dispatch k redispatch_env [] ?W init_action = Done init_action w') \<and>
      currentState w' = Num 5 \<and> \<not> isDispatching w' \<and> pass_events 0 (trace w') = [2]"
    unfolding f1 by auto
  show ?thesis
    using v e w nd f' d' r1 lr t by simp
qed

text \<open>
  Claim C5. In a store with no dispatch in progress and for a valid action: when the
  reducer call throws, \<open>dispatch\<close> throws the same error from the store the reducer
  left with the flag cleared, the state is the state before the call, and no pass has
  run. A listener that throws makes the pass throw the same error at once, from the store
  the listener left. When the reducer returns \<open>v\<close>, the listeners of the snapshot before
  index \<open>k\<close> return and the listener at index \<open>k\<close> throws \<open>e\<close> (from the stores of an
  invariant \<open>P\<close> that holds when the pass starts and that the listeners before \<open>k\<close>
  keep), every \<open>dispatch\<close> with enough fuel throws \<open>e\<close>, from the store the listener at
  \<open>k\<close> left: the pass started with state \<open>v\<close>, it called the listeners of the snapshot
  up to index \<open>k\<close> and none after it, the flag is clear, and unless a listener of the
  pass dispatched again the state is still \<open>v\<close>. Last, whenever the pass of a
  \<open>dispatch\<close> throws, \<open>dispatch\<close> throws that error from the store of the pass, after
  a prefix of the snapshot.
\<close>

theorem dispatch_error_semantics:
  assumes "wf w" "\<not> isDispatching w" "valid_action a"
  shows "(reducer_call n E st w a = Threw e w1 \<longrightarrow>
            (\<exists>w'. dispatch (Suc n) E st w a = Threw e w' \<and> w' = w1\<lparr>isDispatching := False\<rparr> \<and>
               \<not> isDispatching w' \<and> getState w' = getState w \<and> passes w' = passes w))
       \<and> (i < length (arrays w0 l) \<and>
          run n E (InListener (arrays w0 l ! i) # st) (w0\<lparr>trace := trace w0 @ [Invoked p (arrays w0 l ! i)]\<rparr>)
            (E (arrays w0 l ! i) []) = Threw e w2 \<longrightarrow>
            notify (Suc n) E st p l i w0 = Threw e w2)
       \<and> (reducer_call m E st w a = Done v w1 \<and> k < length (registry w1) \<and> P (committed w1 v) \<and>
          (\<forall>j<k. listener_returns E st (passes w1) P (registry w1 ! j)) \<and>
          listener_throws E st (passes w1) P Q e (registry w1 ! k) \<longrightarrow>
            getState (committed w1 v) = v \<and>
            (\<exists>N w'. (\<forall>n\<ge>N. dispatch n E st w a = Threw e w') \<and> Q w' \<and> wf w' \<and>
               \<not> isDispatching w' \<and>
               pass_events (passes w1) (trace w') = take (Suc k) (registry w1) \<and>
               ((\<forall>st'. FlagRead st' False \<notin> set (new_events (committed w1 v) w')) \<longrightarrow> getState w' = v)))
       \<and> (reducer_call n E st w a = Done v w1 \<and>
          notify n E st (passes w1) (nextListeners w1) 0 (committed w1 v) = Threw e w2 \<longrightarrow>
            dispatch (Suc n) E st w a = Threw e w2 \<and>
            getState (committed w1 v) = v \<and>
            \<not> isDispatching w2 \<and>
            (\<exists>k<length (registry w1). pass_events (passes w1) (trace w2) = take (Suc k) (registry w1)) \<and>
            ((\<forall>st'. FlagRead st' False \<notin> set (new_events (committed w1 v) w2)) \<longrightarrow> getState w2 = v))"
proof -
  have c1: "reducer_call n E st w a = Threw e w1 \<longrightarrow>
            (\<exists>w'. dispatch (Suc n) E st w a = Threw e w' \<and> w' = w1\<lparr>isDispatching := False\<rparr> \<and>
               \<not> isDispatching w' \<and> getState w' = getState w \<and> passes w' = passes w)"
  proof
    assume r: "reducer_call n E st w a = Threw e w1"
    from reducer_call_facts [OF r _ assms(1,2)] have "getState w1 = getState w \<and> passes w1 = passes w"
      by (simp add: getState_def)
    with r dispatch_steps [OF assms(2,3), of n E st] show
      "\<exists>w'. dispatch (Suc n) E st w a = Threw e w' \<and> w' = w1\<lparr>isDispatching := False\<rparr> \<and>
               \<not> isDispatching w' \<and> getState w' = getState w \<and> passes w' = passes w"
      by (simp add: getState_def)
  qed
  have c2: "i < length (arrays w0 l) \<and>
          run n E (InListener (arrays w0 l ! i) # st) (w0\<lparr>trace := trace w0 @ [Invoked p (arrays w0 l ! i)]\<rparr>)
            (E (arrays w0 l ! i) []) = Threw e w2 \<longrightarrow>
            notify (Suc n) E st p l i w0 = Threw e w2"
    using notify_step_threw [of i w0 l n E st p e w2] by blast
  have c3: "reducer_call m E st w a = Done v w1 \<and> k < length (registry w1) \<and> P (committed w1 v) \<and>
          (\<forall>j<k. listener_returns E st (passes w1) P (registry w1 ! j)) \<and>
          listener_throws E st (passes w1) P Q e (registry w1 ! k) \<longrightarrow>
            getState (committed w1 v) = v \<and>
            (\<exists>N w'. (\<forall>n\<ge>N. dispatch n E st w a = Threw e w') \<and> Q w' \<and> wf w' \<and>
               \<not> isDispatching w' \<and>
               pass_events (passes w1) (trace w') = take (Suc k) (registry w1) \<and>
               ((\<forall>st'. FlagRead st' False \<notin> set (new_events (committed w1 v) w')) \<longrightarrow> getState w' = v))"
    using dispatch_throws_at [OF assms, of m E st v w1 P k Q e] by (simp add: getState_def)
  have c4: "reducer_call n E st w a = Done v w1 \<and>
          notify n E st (passes w1) (nextListeners w1) 0 (committed w1 v) = Threw e w2 \<longrightarrow>
            dispatch (Suc n) E st w a = Threw e w2 \<and>
            getState (committed w1 v) = v \<and>
            \<not> isDispatching w2 \<and>
            (\<exists>k<length (registry w1). pass_events (passes w1) (trace w2) = take (Suc k) (registry w1)) \<and>
            ((\<forall>st'. FlagRead st' False \<notin> set (new_events (committed w1 v) w2)) \<longrightarrow> getState w2 = v)"
  proof
    assume h: "reducer_call n E st w a = Done v w1 \<and>
          notify n E st (passes w1) (nextListeners w1) 0 (committed w1 v) = Threw e w2"
    then have r: "reducer_call n E st w a = Done v w1"
      and p: "notify n E st (passes w1) (nextListeners w1) 0 (committed w1 v) = Threw e w2"
      by simp_all
    from reducer_call_facts [OF r _ assms(1,2)] have wf1: "wf w1"
      by simp
    from p have f: "final (exec n E (NotifyLoop st (passes w1) (nextListeners w1) 0 (committed w1 v))) = Some w2"
      by (simp add: notify_def)
    from exec_flag [OF f] have flag: "\<not> isDispatching w2"
      by simp
    from exec_state_change [OF f] have st: "(\<forall>st'. FlagRead st' False \<notin> set (new_events (committed w1 v) w2)) \<longrightarrow> getState w2 = v"
      by (auto simp: getState_def)
    from pass_of_dispatch [OF wf1 p] have pe:
      "\<exists>k<length (registry w1). pass_events (passes w1) (trace w2) = take (Suc k) (registry w1)"
      by simp
    from r p dispatch_steps [OF assms(2,3), of n E st] have "dispatch (Suc n) E st w a = Threw e w2"
      by simp
    with flag st pe show "dispatch (Suc n) E st w a = Threw e w2 \<and>
            getState (committed w1 v) = v \<and>
            \<not> isDispatching w2 \<and>
            (\<exists>k<length (registry w1). pass_events (passes w1) (trace w2) = take (Suc k) (registry w1)) \<and>
            ((\<forall>st'. FlagRead st' False \<notin> set (new_events (committed w1 v) w2)) \<longrightarrow> getState w2 = v)"
      by (simp add: getState_def)
  qed
  show ?thesis
    by (intro conjI c1 c2 c3 c4)
qed

theorem dispatch_error_witness:
  "wf (subscribed (subscribed (subscribed (init_store 0 (Num 0)) (Fn 2)) (Fn 1)) (Fn 2))
   \<and> \<not> isDispatching (subscribed (subscribed (subscribed (init_store 0 (Num 0)) (Fn 2)) (Fn 1)) (Fn 2))
   \<and> registry (subscribed (subscribed (subscribed (init_store 0 (Num 0)) (Fn 2)) (Fn 1)) (Fn 2)) = [2, 1, 2]
   \<and> valid_action (Obj [(''type'', Str ''BOOM'')])
   \<and> thrown (reducer_call 3 failing_env []
        (subscribed (subscribed (subscribed (init_store 0 (Num 0)) (Fn 2)) (Fn 1)) (Fn 2))
        (Obj [(''type'', Str ''BOOM'')])) = Some (Error ''boom'')
   \<and> thrown (dispatch (Suc 3) failing_env []
        (subscribed (subscribed (subscribed (init_store 0 (Num 0)) (Fn 2)) (Fn 1)) (Fn 2))
        (Obj [(''type'', Str ''BOOM'')])) = Some (Error ''boom'')
   \<and> map_option (\<lambda>w'. (isDispatching w', getState w', passes w', pass_events 0 (trace w')))
        (final (dispatch (Suc 3) failing_env []
          (subscribed (subscribed (subscribed (init_store 0 (Num 0)) (Fn 2)) (Fn 1)) (Fn 2))
          (Obj [(''type'', Str ''BOOM'')]))) = Some (False, Num 0, 0, [])
   \<and> valid_action inc_action
   \<and> returned (reducer_call 3 failing_env []
        (subscribed (subscribed (subscribed (init_store 0 (Num 0)) (Fn 2)) (Fn 1)) (Fn 2))
        inc_action) = Some (Num 1)
   \<and> listener_returns failing_env [] 0 (\<lambda>w. currentState w = Num 1) 2
   \<and> listener_throws failing_env [] 0 (\<lambda>w. currentState w = Num 1) (\<lambda>w. currentState w = Num 1)
        (Error ''listener failed'') 1
   \<and> (\<exists>N w'. (\<forall>n\<ge>N. dispatch n failing_env []
                  (subscribed (subscribed (subscribed (init_store 0 (Num 0)) (Fn 2)) (Fn 1)) (Fn 2))
                  inc_action = Threw (Error ''listener failed'') w') \<and>
          currentState w' = Num 1 \<and> \<not> isDispatching w' \<and> pass_events 0 (trace w') = [2, 1])
   \<and> thrown (dispatch (Suc 3) failing_env []
        (subscribed (subscribed (subscribed (init_store 0 (Num 0)) (Fn 2)) (Fn 1)) (Fn 2))
        inc_action) = Some (Error ''listener failed'')
   \<and> map_option (\<lambda>w'. (getState w', pass_events 0 (trace w')))
        (final (dispatch (Suc 3) failing_env []
          (subscribed (subscribed (subscribed (init_store 0 (Num 0)) (Fn 2)) (Fn 1)) (Fn 2))
          inc_action)) = Some (Num 1, [2, 1])"
proof -
  let ?W = "subscribed (subscribed (subscribed (init_store 0 (Num 0)) (Fn 2)) (Fn 1)) (Fn 2)"
  let ?boom = "Obj [(''type'', Str ''BOOM'')]"
  let ?P = "\<lambda>w. currentState w = Num 1"
  have w: "wf ?W"
    by simp
  have nd: "\<not> isDispatching ?W"
    by (simp add: eval_store)
  have rg: "registry ?W = [2, 1, 2]"
    by (simp add: eval_store)
  have vb: "valid_action ?boom"
    by (simp add: valid_action_def get_prop_def)
  have "\<exists>w1. reducer_call 3 failing_env [] ?W ?boom = Threw (Error ''boom'') w1 \<and> getState w1 = Num 0 \<and>
      passes w1 = 0 \<and> pass_events 0 (trace w1) = []"
    by (simp add: reducer_call_def eval_store failing_env_def)
  then obtain w1 where r1: "reducer_call 3 failing_env [] ?W ?boom = Threw (Error ''boom'') w1"
    and s1: "getState w1 = Num 0" "passes w1 = 0" "pass_events 0 (trace w1) = []"
    by blast
  note A = dispatch_error_semantics [OF w nd vb, where n = 3 and E = failing_env and st = "[]"
      and e = "Error ''boom''" and ?w1.0 = w1, THEN conjunct1, THEN mp]
  have "\<exists>w'. dispatch (Suc 3) failing_env [] ?W ?boom = Threw (Error ''boom'') w' \<and>
      w' = w1\<lparr>isDispatching := False\<rparr> \<and> \<not> isDispatching w' \<and> getState w' = getState ?W \<and>
      passes w' = passes ?W"
    by (rule A) (rule r1)
  then have d1: "dispatch (Suc 3) failing_env [] ?W ?boom = Threw (Error ''boom'') (w1\<lparr>isDispatching := False\<rparr>)"
    by simp
  have "\<exists>w1 w2. reducer_call 3 failing_env [] ?W inc_action = Done (Num 1) w1 \<and>
      notify 3 failing_env [] (passes w1) (nextListeners w1) 0 (committed w1 (Num 1))
        = Threw (Error ''listener failed'') w2 \<and>
      registry w1 = [2, 1, 2] \<and> passes w1 = 0 \<and> pass_events 0 (trace w2) = [2, 1] \<and> getState w2 = Num 1"
    by (simp add: reducer_call_def eval_store failing_env_def committed_def)
  then obtain w2 w3 where r2: "reducer_call 3 failing_env [] ?W inc_action = Done (Num 1) w2"
    and n2: "notify 3 failing_env [] (passes w2) (nextListeners w2) 0 (committed w2 (Num 1))
        = Threw (Error ''listener failed'') w3"
    and f2: "registry w2 = [2, 1, 2]" "passes w2 = 0" "pass_events 0 (trace w3) = [2, 1]" "getState w3 = Num 1"
    by blast
  have lr: "listener_returns failing_env [] 0 ?P 2"
    unfolding listener_returns_def
    by (intro allI impI exI [of _ "Suc 0"]) (simp add: run_Suc failing_env_def)
  have lt: "listener_throws failing_env [] 0 ?P ?P (Error ''listener failed'') 1"
    unfolding listener_throws_def
    by (intro allI impI exI [of _ "Suc 0"]) (simp add: run_Suc failing_env_def)
  note B = dispatch_error_semantics [OF w nd valid_inc, where m = 3 and E = failing_env and st = "[]"
      and e = "Error ''listener failed''" and ?w1.0 = w2 and v = "Num 1" and k = 1 and P = ?P and Q = ?P,
      THEN conjunct2, THEN conjunct2, THEN conjunct1, THEN mp]
  have "getState (committed w2 (Num 1)) = Num 1 \<and>
      (\<exists>N w'. (\<forall>n\<ge>N. dispatch n failing_env [] ?W inc_action = Threw (Error ''listener failed'') w') \<and>
         ?P w' \<and> wf w' \<and> \<not> isDispatching w' \<and>
         pass_events (passes w2) (trace w') = take (Suc 1) (registry w2) \<and>
         ((\<forall>st'. FlagRead st' False \<notin> set (new_events (committed w2 (Num 1)) w')) \<longrightarrow>
            getState w' = Num 1))"
    by (rule B) (insert r2 f2 lr lt, simp add: less_Suc_eq)
  then have t: "\<exists>N w'. (\<forall>n\<ge>N. dispatch n failing_env [] ?W inc_action = Threw (Error ''listener failed'') w') \<and>
      currentState w' = Num 1 \<and> \<not> isDispatching w' \<and> pass_events 0 (trace w') = [2, 1]"
    unfolding f2 by auto
  note C = dispatch_error_semantics [OF w nd valid_inc, where n = 3 and E = failing_env and st = "[]"
      and e = "Error ''listener failed''" and ?w1.0 = w2 and v = "Num 1" and ?w2.0 = w3,
      THEN conjunct2, THEN conjunct2, THEN conjunct2, THEN mp]
  have "dispatch (Suc 3) failing_env [] ?W inc_action = Threw (Error ''listener failed'') w3 \<and>
      getState (committed w2 (Num 1)) = Num 1 \<and> \<not> isDispatching w3 \<and>
      (\<exists>k<length (registry w2). pass_events (passes w2) (trace w3) = take (Suc k) (registry w2)) \<and>
      ((\<forall>st'. FlagRead st' False \<notin> set (new_events (committed w2 (Num 1)) w3)) \<longrightarrow> getState w3 = Num 1)"
    by (rule C) (insert r2 n2, simp)
  then have d2: "dispatch (Suc 3) failing_env [] ?W inc_action = Threw (Error ''listener failed'') w3"
    by simp
  show ?thesis
    using w nd rg vb r1 s1 d1 r2 lr lt t d2 f2 by (simp add: getState_def)
qed

text \<open>
  Claim C6, amended. While the flag is set, \<open>dispatch\<close> of a valid action throws the
  reentrancy error and leaves the store as it was but for the trace; \<open>dispatch\<close> of an
  invalid action throws the invalid-action error, which is not the reentrancy error, and
  leaves the store as it was. In a callback that runs under the flag the error of the
  nested \<open>dispatch\<close> is thrown into the callback: it escapes a body that does not catch
  it, and a \<open>try\<close> around the \<open>dispatch\<close> runs its handler with it. Whatever the
  reducer is, the reducer call of a \<open>dispatch\<close> leaves the state and the number of passes
  as they were, the flag set, and every \<open>dispatch\<close> attempted in it read the flag as
  true. When the reducer call returns \<open>v\<close>, \<open>dispatch\<close> goes on to the pass from the
  store with state \<open>v\<close>, and returns the action when the listeners of the registry
  return; when the reducer call throws, \<open>dispatch\<close> throws that error, with the flag
  cleared, the state as before the call and no pass run.
\<close>

theorem reentrant_dispatch:
  "(isDispatching w \<and> valid_action a' \<longrightarrow>
      (\<exists>e. dispatch (Suc n) E st w a' = Threw e (w\<lparr>trace := trace w @ [FlagRead st True]\<rparr>) \<and>
           ReentrancyError e))
   \<and> (\<not> valid_action a' \<longrightarrow>
        (\<exists>e. dispatch (Suc n) E st w a' = Threw e w \<and> InvalidActionError e \<and> \<not> ReentrancyError e))
   \<and> (isDispatching w \<and> valid_action a' \<longrightarrow>
        (\<exists>e. ReentrancyError e \<and>
           run (Suc (Suc n)) E st w (Dispatch a' k0) = Threw e (w\<lparr>trace := trace w @ [FlagRead st True]\<rparr>) \<and>
           run (Suc (Suc (Suc n))) E st w (TryCatch (Dispatch a' k0) k h) =
             run (Suc (Suc n)) E st (w\<lparr>trace := trace w @ [FlagRead st True]\<rparr>) (h e)))
   \<and> (wf w \<and> \<not> isDispatching w \<and> final (reducer_call n E st w a) = Some w1 \<longrightarrow>
        getState w1 = getState w \<and> passes w1 = passes w \<and> isDispatching w1 \<and>
        (\<exists>evs. new_events w w1 = FlagRead st False # evs \<and> set evs \<subseteq> {FlagRead (InReducer # st) True}))
   \<and> (wf w \<and> \<not> isDispatching w \<and> valid_action a \<and> reducer_call n E st w a = Done v w1 \<longrightarrow>
        getState (committed w1 v) = v \<and>
        dispatch (Suc n) E st w a =
          (case notify n E st (passes w1) (nextListeners w1) 0 (committed w1 v) of
             OutOfFuel \<Rightarrow> OutOfFuel
           | Threw e w4 \<Rightarrow> Threw e w4
           | Done u w4 \<Rightarrow> Done a w4))
   \<and> (wf w \<and> \<not> isDispatching w \<and> valid_action a \<and> reducer_call m E st w a = Done v w1 \<and>
       P (committed w1 v) \<and> (\<forall>f\<in>set (registry w1). listener_returns E st (passes w1) P f) \<longrightarrow>
        (\<exists>N w'. (\<forall>n\<ge>N. dispatch n E st w a = Done a w') \<and> P w' \<and> wf w' \<and>
           \<not> isDispatching w' \<and>
           pass_events (passes w1) (trace w') = registry w1 \<and>
           ((\<forall>st'. FlagRead st' False \<notin> set (new_events (committed w1 v) w')) \<longrightarrow> getState w' = v)))
   \<and> (wf w \<and> \<not> isDispatching w \<and> valid_action a \<and> reducer_call n E st w a = Threw e w1 \<longrightarrow>
        dispatch (Suc n) E st w a = Threw e (w1\<lparr>isDispatching := False\<rparr>) \<and>
        getState w1 = getState w \<and> passes w1 = passes w)"
proof -
  let ?r = "Error ''Reducers may not dispatch actions.''"
  have c1: "isDispatching w \<and> valid_action a' \<longrightarrow>
      (\<exists>e. dispatch (Suc n) E st w a' = Threw e (w\<lparr>trace := trace w @ [FlagRead st True]\<rparr>) \<and>
           ReentrancyError e)"
    by (simp add: dispatch_reentrant ReentrancyError_def)
  have c2: "\<not> valid_action a' \<longrightarrow>
        (\<exists>e. dispatch (Suc n) E st w a' = Threw e w \<and> InvalidActionError e \<and> \<not> ReentrancyError e)"
    using dispatch_invalid [of a' n E st w]
    by (auto simp: InvalidActionError_def ReentrancyError_def)
  have c3: "isDispatching w \<and> valid_action a' \<longrightarrow>
        (\<exists>e. ReentrancyError e \<and>
           run (Suc (Suc n)) E st w (Dispatch a' k0) = Threw e (w\<lparr>trace := trace w @ [FlagRead st True]\<rparr>) \<and>
           run (Suc (Suc (Suc n))) E st w (TryCatch (Dispatch a' k0) k h) =
             run (Suc (Suc n)) E st (w\<lparr>trace := trace w @ [FlagRead st True]\<rparr>) (h e))"
    by (simp add: run_Suc dispatch_reentrant ReentrancyError_def)
  have c4: "wf w \<and> \<not> isDispatching w \<and> final (reducer_call n E st w a) = Some w1 \<longrightarrow>
        getState w1 = getState w \<and> passes w1 = passes w \<and> isDispatching w1 \<and>
        (\<exists>evs. new_events w w1 = FlagRead st False # evs \<and> set evs \<subseteq> {FlagRead (InReducer # st) True})"
  proof
    assume h: "wf w \<and> \<not> isDispatching w \<and> final (reducer_call n E st w a) = Some w1"
    let ?w0 = "w\<lparr>trace := trace w @ [FlagRead st False], isDispatching := True\<rparr>"
    let ?c = "RunBody (InReducer # st) ?w0 (E (currentReducer w) [currentState w, a])"
    from h have f: "final (exec n E ?c) = Some w1"
      by (simp add: reducer_call_def run_def)
    from exec_in_reducer [OF f] obtain evs where
      "trace w1 = trace w @ FlagRead st False # evs" "set evs \<subseteq> {FlagRead (InReducer # st) True}"
      by auto
    then have "\<exists>evs. new_events w w1 = FlagRead st False # evs \<and> set evs \<subseteq> {FlagRead (InReducer # st) True}"
      by (simp add: new_events_def)
    with h reducer_call_facts [of n E st w a "reducer_call n E st w a" w1]
    show "getState w1 = getState w \<and> passes w1 = passes w \<and> isDispatching w1 \<and>
        (\<exists>evs. new_events w w1 = FlagRead st False # evs \<and> set evs \<subseteq> {FlagRead (InReducer # st) True})"
      by (simp add: getState_def)
  qed
  have c5: "wf w \<and> \<not> isDispatching w \<and> valid_action a \<and> reducer_call n E st w a = Done v w1 \<longrightarrow>
        getState (committed w1 v) = v \<and>
        dispatch (Suc n) E st w a =
          (case notify n E st (passes w1) (nextListeners w1) 0 (committed w1 v) of
             OutOfFuel \<Rightarrow> OutOfFuel
           | Threw e w4 \<Rightarrow> Threw e w4
           | Done u w4 \<Rightarrow> Done a w4)"
    by (simp add: dispatch_steps getState_def)
  have c6: "wf w \<and> \<not> isDispatching w \<and> valid_action a \<and> reducer_call m E st w a = Done v w1 \<and>
       P (committed w1 v) \<and> (\<forall>f\<in>set (registry w1). listener_returns E st (passes w1) P f) \<longrightarrow>
        (\<exists>N w'. (\<forall>n\<ge>N. dispatch n E st w a = Done a w') \<and> P w' \<and> wf w' \<and>
           \<not> isDispatching w' \<and>
           pass_events (passes w1) (trace w') = registry w1 \<and>
           ((\<forall>st'. FlagRead st' False \<notin> set (new_events (committed w1 v) w')) \<longrightarrow> getState w' = v))"
    using dispatch_returns [of w a m E st v w1 P] by blast
  have c7: "wf w \<and> \<not> isDispatching w \<and> valid_action a \<and> reducer_call n E st w a = Threw e w1 \<longrightarrow>
        dispatch (Suc n) E st w a = Threw e (w1\<lparr>isDispatching := False\<rparr>) \<and>
        getState w1 = getState w \<and> passes w1 = passes w"
  proof
    assume h: "wf w \<and> \<not> isDispatching w \<and> valid_action a \<and> reducer_call n E st w a = Threw e w1"
    with reducer_call_facts [of n E st w a "Threw e w1" w1]
    have "getState w1 = getState w \<and> passes w1 = passes w"
      by (simp add: getState_def)
    with h show "dispatch (Suc n) E st w a = Threw e (w1\<lparr>isDispatching := False\<rparr>) \<and>
        getState w1 = getState w \<and> passes w1 = passes w"
      by (simp add: dispatch_steps)
  qed
  show ?thesis
    by (intro conjI c1 c2 c3 c4 c5 c6 c7)
qed

text \<open>
  Claim C6 as stated fails twice. The reducer (function 1 of \<open>nesting_env\<close>) dispatches,
  catches the error and throws it again: the outer \<open>dispatch\<close> does not return, it
  throws the reentrancy error, and the state stays 0. And the reducer (function 0 of
  \<open>reporting_env\<close>) dispatches the string \<open>'INC'\<close>: the nested \<open>dispatch\<close> fails with the
  invalid-action error before it reads the flag, and that is the message the reducer
  puts in the state.
\<close>

theorem reducer_rethrow_counterexample:
  "thrown (dispatch 5 nesting_env [] (init_store 1 (Num 0)) inc_action)
     = Some (Error ''Reducers may not dispatch actions.'')
   \<and> returned (dispatch 5 nesting_env [] (init_store 1 (Num 0)) inc_action) = None
   \<and> map_option getState (final (dispatch 5 nesting_env [] (init_store 1 (Num 0)) inc_action))
     = Some (Num 0)
   \<and> map_option trace (final (dispatch 5 nesting_env [] (init_store 1 (Num 0)) inc_action))
     = Some [FlagRead [] False, FlagRead [InReducer] True]
   \<and> returned (dispatch 5 reporting_env [] (init_store 0 (Num 0))
        (Obj [(''type'', Str ''OUTER''), (''payload'', Str ''INC'')]))
     = Some (Obj [(''type'', Str ''OUTER''), (''payload'', Str ''INC'')])
   \<and> map_option getState (final (dispatch 5 reporting_env [] (init_store 0 (Num 0))
        (Obj [(''type'', Str ''OUTER''), (''payload'', Str ''INC'')])))
     = Some (Arr [Num 0, Str ''Actions must be plain objects. Use custom middleware for async actions.''])
   \<and> map_option trace (final (dispatch 5 reporting_env [] (init_store 0 (Num 0))
        (Obj [(''type'', Str ''OUTER''), (''payload'', Str ''INC'')])))
     = Some [FlagRead [] False]"
  by (simp add: eval_store nesting_env_def reporting_env_def)

theorem reentrant_dispatch_witness:
  "isDispatching ((init_store 0 (Num 0))\<lparr>isDispatching := True\<rparr>)
   \<and> valid_action inc_action
   \<and> (\<exists>e. dispatch (Suc 0) nesting_env [InReducer] ((init_store 0 (Num 0))\<lparr>isDispatching := True\<rparr>) inc_action
          = Threw e ((init_store 0 (Num 0))\<lparr>isDispatching := True, trace := [FlagRead [InReducer] True]\<rparr>)
        \<and> ReentrancyError e)
   \<and> \<not> valid_action (Str ''INC'')
   \<and> (\<exists>e. dispatch (Suc 0) nesting_env [InReducer] ((init_store 0 (Num 0))\<lparr>isDispatching := True\<rparr>) (Str ''INC'')
          = Threw e ((init_store 0 (Num 0))\<lparr>isDispatching := True\<rparr>)
        \<and> InvalidActionError e \<and> \<not> ReentrancyError e)
   \<and> run (Suc (Suc (Suc 0))) nesting_env [InReducer] ((init_store 0 (Num 0))\<lparr>isDispatching := True\<rparr>)
        (TryCatch (Dispatch inc_action Return) (\<lambda>v. Return (Num 7)) (\<lambda>e. Return (Str (message e))))
      = Done (Str ''Reducers may not dispatch actions.'')
          ((init_store 0 (Num 0))\<lparr>isDispatching := True, trace := [FlagRead [InReducer] True]\<rparr>)
   \<and> wf (subscribed (init_store 0 (Num 0)) (Fn 2))
   \<and> \<not> isDispatching (subscribed (init_store 0 (Num 0)) (Fn 2))
   \<and> valid_action (Obj [(''type'', Str ''OUTER''), (''payload'', inc_action)])
   \<and> returned (reducer_call 4 reporting_env [] (subscribed (init_store 0 (Num 0)) (Fn 2))
        (Obj [(''type'', Str ''OUTER''), (''payload'', inc_action)]))
      = Some (Arr [Num 0, Str ''Reducers may not dispatch actions.''])
   \<and> map_option (\<lambda>w1. (getState w1, new_events (subscribed (init_store 0 (Num 0)) (Fn 2)) w1))
        (final (reducer_call 4 reporting_env [] (subscribed (init_store 0 (Num 0)) (Fn 2))
          (Obj [(''type'', Str ''OUTER''), (''payload'', inc_action)])))
      = Some (Num 0, [FlagRead [] False, FlagRead [InReducer] True])
   \<and> listener_returns reporting_env [] 0
        (\<lambda>w. currentState w = Arr [Num 0, Str ''Reducers may not dispatch actions.'']) 2
   \<and> (\<exists>N w'. (\<forall>n\<ge>N. dispatch n reporting_env [] (subscribed (init_store 0 (Num 0)) (Fn 2))
                  (Obj [(''type'', Str ''OUTER''), (''payload'', inc_action)])
                = Done (Obj [(''type'', Str ''OUTER''), (''payload'', inc_action)]) w') \<and>
          currentState w' = Arr [Num 0, Str ''Reducers may not dispatch actions.''] \<and>
          \<not> isDispatching w' \<and> pass_events 0 (trace w') = [2])
   \<and> wf (init_store 1 (Num 0))
   \<and> \<not> isDispatching (init_store 1 (Num 0))
   \<and> thrown (reducer_call 3 nesting_env [] (init_store 1 (Num 0)) inc_action)
      = Some (Error ''Reducers may not dispatch actions.'')
   \<and> thrown (dispatch (Suc 3) nesting_env [] (init_store 1 (Num 0)) inc_action)
      = Some (Error ''Reducers may not dispatch actions.'')
   \<and> map_option (\<lambda>w'. (getState w', isDispatching w', passes w'))
        (final (dispatch (Suc 3) nesting_env [] (init_store 1 (Num 0)) inc_action))
      = Some (Num 0, False, 0)"
proof -
  let ?busy = "(init_store 0 (Num 0))\<lparr>isDispatching := True\<rparr>"
  let ?W = "subscribed (init_store 0 (Num 0)) (Fn 2)"
  let ?outer = "Obj [(''type'', Str ''OUTER''), (''payload'', inc_action)]"
  let ?r = "''Reducers may not dispatch actions.''"
  let ?v = "Arr [Num 0, Str ?r]"
  let ?P = "\<lambda>w. currentState w = ?v"
  have h1: "isDispatching ?busy"
    by simp
  have t: "?busy\<lparr>trace := trace ?busy @ [FlagRead [InReducer] True]\<rparr>
      = (init_store 0 (Num 0))\<lparr>isDispatching := True, trace := [FlagRead [InReducer] True]\<rparr>"
    by (simp add: init_store_def)
  note A = reentrant_dispatch [where w = ?busy and a' = inc_action and n = 0 and E = nesting_env
      and st = "[InReducer]", THEN conjunct1, THEN mp]
  have "\<exists>e. dispatch (Suc 0) nesting_env [InReducer] ?busy inc_action
          = Threw e (?busy\<lparr>trace := trace ?busy @ [FlagRead [InReducer] True]\<rparr>) \<and> ReentrancyError e"
    by (rule A) simp
  then have a: "\<exists>e. dispatch (Suc 0) nesting_env [InReducer] ?busy inc_action
          = Threw e ((init_store 0 (Num 0))\<lparr>isDispatching := True, trace := [FlagRead [InReducer] True]\<rparr>)
        \<and> ReentrancyError e"
    by (simp only: t)
  have nv: "\<not> valid_action (Str ''INC'')"
    by (simp add: valid_action_def)
  note B = reentrant_dispatch [where w = ?busy and a' = "Str ''INC''" and n = 0 and E = nesting_env
      and st = "[InReducer]", THEN conjunct2, THEN conjunct1, THEN mp]
  have b: "\<exists>e. dispatch (Suc 0) nesting_env [InReducer] ?busy (Str ''INC'') = Threw e ?busy \<and>
      InvalidActionError e \<and> \<not> ReentrancyError e"
    by (rule B) (rule nv)
  note C = reentrant_dispatch [where w = ?busy and a' = inc_action and n = 0 and E = nesting_env
      and st = "[InReducer]" and ?k0.0 = Return and k = "\<lambda>v. Return (Num 7)"
      and h = "\<lambda>e. Return (Str (message e))", THEN conjunct2, THEN conjunct2, THEN conjunct1, THEN mp]
  have "\<exists>e. ReentrancyError e \<and>
      run (Suc (Suc 0)) nesting_env [InReducer] ?busy (Dispatch inc_action Return)
        = Threw e (?busy\<lparr>trace := trace ?busy @ [FlagRead [InReducer] True]\<rparr>) \<and>
      run (Suc (Suc (Suc 0))) nesting_env [InReducer] ?busy
          (TryCatch (Dispatch inc_action Return) (\<lambda>v. Return (Num 7)) (\<lambda>e. Return (Str (message e))))
        = run (Suc (Suc 0)) nesting_env [InReducer] (?busy\<lparr>trace := trace ?busy @ [FlagRead [InReducer] True]\<rparr>)
            (Return (Str (message e)))"
    by (rule C) simp
  then have c: "run (Suc (Suc (Suc 0))) nesting_env [InReducer] ?busy
          (TryCatch (Dispatch inc_action Return) (\<lambda>v. Return (Num 7)) (\<lambda>e. Return (Str (message e))))
        = Done (Str ?r) ((init_store 0 (Num 0))\<lparr>isDispatching := True, trace := [FlagRead [InReducer] True]\<rparr>)"
    unfolding t by (auto simp: ReentrancyError_def run_Suc)
  have w: "wf ?W"
    by simp
  have nd: "\<not> isDispatching ?W"
    by (simp add: eval_store)
  have vo: "valid_action ?outer"
    by (simp add: valid_action_def get_prop_def)
  have "\<exists>w1. reducer_call 4 reporting_env [] ?W ?outer = Done ?v w1 \<and>
      registry w1 = [2] \<and> passes w1 = 0 \<and> getState w1 = Num 0 \<and>
      new_events ?W w1 = [FlagRead [] False, FlagRead [InReducer] True]"
    by (simp add: reducer_call_def eval_store reporting_env_def new_events_def)
  then obtain w1 where r1: "reducer_call 4 reporting_env [] ?W ?outer = Done ?v w1"
    and f1: "registry w1 = [2]" "passes w1 = 0" "getState w1 = Num 0"
      "new_events ?W w1 = [FlagRead [] False, FlagRead [InReducer] True]"
    by blast
  have lr: "listener_returns reporting_env [] 0 ?P 2"
    unfolding listener_returns_def
    by (intro allI impI exI [of _ "Suc 0"]) (simp add: run_Suc reporting_env_def)
  note D = reentrant_dispatch [where w = ?W and a = ?outer and m = 4 and E = reporting_env
      and st = "[]" and v = ?v and ?w1.0 = w1 and P = ?P,
      THEN conjunct2, THEN conjunct2, THEN conjunct2, THEN conjunct2, THEN conjunct2, THEN conjunct1, THEN mp]
  have "\<exists>N w'. (\<forall>n\<ge>N. dispatch n reporting_env [] ?W ?outer = Done ?outer w') \<and> ?P w' \<and> wf w' \<and>
      \<not> isDispatching w' \<and>
      pass_events (passes w1) (trace w') = registry w1 \<and>
      ((\<forall>st'. FlagRead st' False \<notin> set (new_events (committed w1 ?v) w')) \<longrightarrow>
         getState w' = ?v)"
    by (rule D) (insert w nd vo r1 f1 lr, simp)
  then have d: "\<exists>N w'. (\<forall>n\<ge>N. dispatch n reporting_env [] ?W ?outer = Done ?outer w') \<and>
      currentState w' = ?v \<and> \<not> isDispatching w' \<and> pass_events 0 (trace w') = [2]"
    unfolding f1 by blast
  have w2: "wf (init_store 1 (Num 0))"
    by simp
  have nd2: "\<not> isDispatching (init_store 1 (Num 0))"
    by (simp add: init_store_def)
  have "\<exists>w3. reducer_call 3 nesting_env [] (init_store 1 (Num 0)) inc_action = Threw (Error ?r) w3 \<and>
      getState w3 = Num 0 \<and> passes w3 = 0"
    by (simp add: reducer_call_def eval_store nesting_env_def)
  then obtain w3 where r3: "reducer_call 3 nesting_env [] (init_store 1 (Num 0)) inc_action = Threw (Error ?r) w3"
    and f3: "getState w3 = Num 0" "passes w3 = 0"
    by blast
  note F = reentrant_dispatch [where w = "init_store 1 (Num 0)" and a = inc_action and n = 3
      and E = nesting_env and st = "[]" and e = "Error ?r" and ?w1.0 = w3,
      THEN conjunct2, THEN conjunct2, THEN conjunct2, THEN conjunct2, THEN conjunct2, THEN conjunct2, THEN mp]
  have "dispatch (Suc 3) nesting_env [] (init_store 1 (Num 0)) inc_action
        = Threw (Error ?r) (w3\<lparr>isDispatching := False\<rparr>) \<and>
      getState w3 = getState (init_store 1 (Num 0)) \<and> passes w3 = passes (init_store 1 (Num 0))"
    by (rule F) (insert w2 nd2 r3, simp)
  then have f: "dispatch (Suc 3) nesting_env [] (init_store 1 (Num 0)) inc_action
        = Threw (Error ?r) (w3\<lparr>isDispatching := False\<rparr>)"
    by simp
  show ?thesis
    using h1 a nv b c w nd vo r1 f1 lr d w2 nd2 r3 f3 f by (simp add: getState_def)
qed

lemma flag_matches_iff:
  "flag_matches st b \<Longrightarrow>
     (b \<longleftrightarrow> InReducer \<in> set st) \<and> (b \<longleftrightarrow> (\<exists>st'. st = InReducer # st')) \<and>
     (\<forall>f st'. st = InListener f # st' \<longrightarrow> \<not> b)"
  by (cases st) (auto simp: flag_matches_def)

text \<open>
  Claim C7. Every call that comes back leaves the flag as it found it, and every read of
  the flag made on the way (each is the read of line 177, in a \<open>dispatch\<close> that passed
  the checks of its action) finds it true exactly when a reducer is on the call stack,
  which is exactly when the innermost callback is a reducer; a \<open>dispatch\<close> called from
  a listener reads it false. This holds for every call entered with the flag fitting its
  stack, a \<open>dispatch\<close> from outside any callback with the flag clear among them. A
  \<open>dispatch\<close> of a valid action throws the reentrancy error at once when it reads the
  flag true, and when it reads it false it goes on to call the reducer.
\<close>

theorem flag_true_exactly_in_reducer:
  "(final (exec n E c) = Some w' \<and> entered_well c \<longrightarrow>
      isDispatching w' = isDispatching (store_of c) \<and>
      (\<forall>st b. FlagRead st b \<in> set (new_events (store_of c) w') \<longrightarrow>
         (b \<longleftrightarrow> InReducer \<in> set st) \<and> (b \<longleftrightarrow> (\<exists>st'. st = InReducer # st')) \<and>
         (\<forall>f st'. st = InListener f # st' \<longrightarrow> \<not> b)))
   \<and> (\<not> isDispatching w \<longrightarrow> entered_well (DispatchCall [] w a))
   \<and> (valid_action a \<and> isDispatching w \<longrightarrow>
        dispatch (Suc m) E st w a =
          Threw (Error ''Reducers may not dispatch actions.'') (w\<lparr>trace := trace w @ [FlagRead st True]\<rparr>))
   \<and> (valid_action a \<and> \<not> isDispatching w \<longrightarrow>
        dispatch (Suc m) E st w a =
          (case reducer_call m E st w a of
             OutOfFuel \<Rightarrow> OutOfFuel
           | Threw e w1 \<Rightarrow> Threw e (w1\<lparr>isDispatching := False\<rparr>)
           | Done v w1 \<Rightarrow>
               (case notify m E st (passes w1) (nextListeners w1) 0 (committed w1 v) of
                  OutOfFuel \<Rightarrow> OutOfFuel
                | Threw e w4 \<Rightarrow> Threw e w4
                | Done u w4 \<Rightarrow> Done a w4)))"
proof -
  have c1: "final (exec n E c) = Some w' \<and> entered_well c \<longrightarrow>
      isDispatching w' = isDispatching (store_of c) \<and>
      (\<forall>st b. FlagRead st b \<in> set (new_events (store_of c) w') \<longrightarrow>
         (b \<longleftrightarrow> InReducer \<in> set st) \<and> (b \<longleftrightarrow> (\<exists>st'. st = InReducer # st')) \<and>
         (\<forall>f st'. st = InListener f # st' \<longrightarrow> \<not> b))"
  proof
    assume h: "final (exec n E c) = Some w' \<and> entered_well c"
    then have f: "final (exec n E c) = Some w'" and e: "entered_well c"
      by simp_all
    from exec_flag_reads [OF f e] obtain evs where evs: "trace w' = trace (store_of c) @ evs"
      "\<forall>st b. FlagRead st b \<in> set evs \<longrightarrow> flag_matches st b"
      by blast
    from evs(1) have "new_events (store_of c) w' = evs"
      by simp
    with evs(2) flag_matches_iff have "\<forall>st b. FlagRead st b \<in> set (new_events (store_of c) w') \<longrightarrow>
         (b \<longleftrightarrow> InReducer \<in> set st) \<and> (b \<longleftrightarrow> (\<exists>st'. st = InReducer # st')) \<and>
         (\<forall>f st'. st = InListener f # st' \<longrightarrow> \<not> b)"
      by blast
    with exec_flag [OF f] show "isDispatching w' = isDispatching (store_of c) \<and>
      (\<forall>st b. FlagRead st b \<in> set (new_events (store_of c) w') \<longrightarrow>
         (b \<longleftrightarrow> InReducer \<in> set st) \<and> (b \<longleftrightarrow> (\<exists>st'. st = InReducer # st')) \<and>
         (\<forall>f st'. st = InListener f # st' \<longrightarrow> \<not> b))"
      by blast
  qed
  have c2: "\<not> isDispatching w \<longrightarrow> entered_well (DispatchCall [] w a)"
    by (simp add: entered_well_def flag_matches_def)
  have c3: "valid_action a \<and> isDispatching w \<longrightarrow>
        dispatch (Suc m) E st w a =
          Threw (Error ''Reducers may not dispatch actions.'') (w\<lparr>trace := trace w @ [FlagRead st True]\<rparr>)"
    by (simp add: dispatch_reentrant)
  have c4: "valid_action a \<and> \<not> isDispatching w \<longrightarrow>
        dispatch (Suc m) E st w a =
          (case reducer_call m E st w a of
             OutOfFuel \<Rightarrow> OutOfFuel
           | Threw e w1 \<Rightarrow> Threw e (w1\<lparr>isDispatching := False\<rparr>)
           | Done v w1 \<Rightarrow>
               (case notify m E st (passes w1) (nextListeners w1) 0 (committed w1 v) of
                  OutOfFuel \<Rightarrow> OutOfFuel
                | Threw e w4 \<Rightarrow> Threw e w4
                | Done u w4 \<Rightarrow> Done a w4))"
    using dispatch_steps [of w a m E st] by blast
  show ?thesis
    by (intro conjI c1 c2 c3 c4)
qed

theorem flag_true_exactly_in_reducer_witness:
  "entered_well (DispatchCall [] (subscribed (init_store 0 (Num 0)) (Fn 1)) inc_action)
   \<and> \<not> isDispatching (subscribed (init_store 0 (Num 0)) (Fn 1))
   \<and> valid_action inc_action
   \<and> map_option (new_events (subscribed (init_store 0 (Num 0)) (Fn 1)))
        (final (dispatch 10 redispatch_env [] (subscribed (init_store 0 (Num 0)) (Fn 1)) inc_action))
      = Some [FlagRead [] False, Invoked 0 1, FlagRead [InListener 1] False, Invoked 1 1]
   \<and> map_option isDispatching
        (final (dispatch 10 redispatch_env [] (subscribed (init_store 0 (Num 0)) (Fn 1)) inc_action))
      = Some False
   \<and> map_option getState
        (final (dispatch 10 redispatch_env [] (subscribed (init_store 0 (Num 0)) (Fn 1)) inc_action))
      = Some (Num 2)"
proof -
  let ?W = "subscribed (init_store 0 (Num 0)) (Fn 1)"
  have nd: "\<not> isDispatching ?W"
    by (simp add: eval_store)
  have "\<exists>w'. dispatch 10 redispatch_env [] ?W inc_action = Done inc_action w' \<and>
      new_events ?W w' = [FlagRead [] False, Invoked 0 1, FlagRead [InListener 1] False, Invoked 1 1] \<and>
      getState w' = Num 2"
    by (simp add: eval_store redispatch_env_def new_events_def)
  then obtain w' where d: "dispatch 10 redispatch_env [] ?W inc_action = Done inc_action w'"
    and ev: "new_events ?W w' = [FlagRead [] False, Invoked 0 1, FlagRead [InListener 1] False, Invoked 1 1]"
    and s: "getState w' = Num 2"
    by blast
  from d have f: "final (exec 10 redispatch_env (DispatchCall [] ?W inc_action)) = Some w'"
    by (simp add: dispatch_def)
  note T = flag_true_exactly_in_reducer [where n = 10 and E = redispatch_env
      and c = "DispatchCall [] ?W inc_action" and w' = w' and w = ?W and a = inc_action]
  from T nd have e: "entered_well (DispatchCall [] ?W inc_action)"
    by blast
  with T f nd have "isDispatching w' = False"
    by simp
  with e nd d ev s show ?thesis
    by simp
qed

lemma subscribe_dead: "subscribe w x = Inr (h', w') \<Longrightarrow> dead w h \<Longrightarrow> dead w' h"
  by (auto simp: subscribe_def Let_def dead_def nth_append split: jsval.splits)

lemma unsubscribe_dead: "unsubscribe w h' = Inr w' \<Longrightarrow> dead w h \<Longrightarrow> dead w' h"
  by (auto simp: unsubscribe_def Let_def dead_def nth_list_update split: if_splits)

lemma dead_upd [simp]:
  "dead (w\<lparr>trace := t\<rparr>) h = dead w h"
  "dead (w\<lparr>isDispatching := b\<rparr>) h = dead w h"
  "dead (w\<lparr>currentState := v\<rparr>) h = dead w h"
  "dead (w\<lparr>currentReducer := r\<rparr>) h = dead w h"
  "dead (w\<lparr>currentListeners := l\<rparr>) h = dead w h"
  "dead (w\<lparr>passes := k\<rparr>) h = dead w h"
  by (simp_all add: dead_def)

lemma exec_dead:
  "final (exec n E c) = Some w' \<Longrightarrow> dead (store_of c) h \<Longrightarrow> dead w' h"
proof (induction n arbitrary: c w')
  case 0
  then show ?case by simp
next
  case (Suc n)
  have D: "exec n E c = Done v w1 \<Longrightarrow> dead (store_of c) h \<Longrightarrow> dead w1 h" for c v w1
    using Suc.IH [of c w1] by simp
  have T: "exec n E c = Threw e w1 \<Longrightarrow> dead (store_of c) h \<Longrightarrow> dead w1 h" for c e w1
    using Suc.IH [of c w1] by simp
  show ?case
  proof (cases c)
    case (DispatchCall st w action)
    show ?thesis using Suc.prems unfolding DispatchCall
      by (auto simp: Let_def split: if_splits res.splits dest!: D T Suc.IH)
  next
    case (NotifyLoop st p la i w)
    show ?thesis using Suc.prems unfolding NotifyLoop
      by (auto simp: Let_def split: if_splits res.splits dest!: D T Suc.IH)
  next
    case (RunBody st w b)
    show ?thesis using Suc.prems unfolding RunBody
      by (cases b) (auto simp: Let_def getState_def split: if_splits res.splits sum.splits jsval.splits
          dest!: D T Suc.IH dest: subscribe_dead unsubscribe_dead)
  qed
qed

lemma unsubscribe_dead_noop: "dead w h \<Longrightarrow> unsubscribe w h = Inr w"
  by (simp add: unsubscribe_def dead_def Let_def)

lemma subscribed_times_registry:
  "wf w \<Longrightarrow> wf (subscribed_times n w (Fn f)) \<and>
     registry (subscribed_times n w (Fn f)) = registry w @ replicate n f"
proof (induction n arbitrary: w)
  case 0
  then show ?case by simp
next
  case (Suc n)
  obtain h w1 where s: "subscribe w (Fn f) = Inr (h, w1)"
    by (simp add: subscribe_def Let_def)
  then have w1: "subscribed w (Fn f) = w1"
    by (simp add: subscribed_def)
  from subscribe_Inr [OF s] have r: "registry w1 = registry w @ [f]"
    by simp
  from Suc.IH [of w1] subscribe_wf [OF s Suc.prems] r w1 show ?case
    by (simp add: replicate_app_Cons_same)
qed

lemma wf_protected_current: "wf w \<Longrightarrow> protected (currentListeners w) w"
  by (simp add: wf_def protected_def)

lemma unsubscribe_once:
  assumes "wf w" "live w h f"
  shows "\<exists>w1. unsubscribe w h = Inr w1 \<and> wf w1 \<and>
      f \<in> set (registry w) \<and>
      registry w1 = remove1 f (registry w) \<and>
      registry w1 = splice1 (indexOf (registry w) f) (registry w) \<and>
      registry w ! nat (indexOf (registry w) f) = f \<and>
      f \<notin> set (take (nat (indexOf (registry w) f)) (registry w)) \<and>
      count_list (registry w1) f + 1 = count_list (registry w) f \<and>
      (\<forall>g. g \<noteq> f \<longrightarrow> count_list (registry w1) g = count_list (registry w) g) \<and>
      nextListeners w1 \<noteq> currentListeners w1 \<and>
      arrays w1 (currentListeners w1) = arrays w (currentListeners w) \<and>
      dead w1 h \<and> unsubscribe w1 h = Inr w1"
proof -
  from unsubscribe_live [OF assms] obtain w1 where u: "unsubscribe w h = Inr w1"
    and r: "registry w1 = remove1 f (registry w)" and c: "closures w1 = (closures w)[h := (f, False)]"
    and m: "f \<in> set (registry w)"
    by blast
  from assms(2) have h: "h < length (closures w)" "snd (closures w ! h)"
    by (simp_all add: live_def)
  have wf1: "wf w1"
    by (rule unsubscribe_wf [OF u assms(1)])
  from c h have d: "dead w1 h"
    by (simp add: dead_def)
  from m have cnt: "count_list (registry w1) f + 1 = count_list (registry w) f"
    using count_list_pos [of "registry w" f] by (simp add: r count_list_remove1)
  have oth: "\<forall>g. g \<noteq> f \<longrightarrow> count_list (registry w1) g = count_list (registry w) g"
    by (simp add: r count_list_remove1)
  from unsubscribe_fields [OF u] have cur: "currentListeners w1 = currentListeners w"
    by simp
  from unsubscribe_frame [OF u wf_protected_current [OF assms(1)]] cur
  have fr: "arrays w1 (currentListeners w1) = arrays w (currentListeners w)"
    by simp
  from unsubscribe_Inr [OF u] h have "nextListeners w1 = nextListeners (ensureCanMutateNextListeners w)"
    by simp
  with ensure_split [of w] assms(1) cur have ne: "nextListeners w1 \<noteq> currentListeners w1"
    by (simp add: wf_def)
  from u wf1 m r splice1_remove1 [OF m] indexOf_first [OF m] cnt oth ne fr d unsubscribe_dead_noop [OF d]
  show ?thesis
    by simp
qed

lemma dispatch_pure_pass:
  assumes "wf w" "\<not> isDispatching w" "valid_action a"
    "E (currentReducer w) [currentState w, a] = Return v" "dispatch (Suc m) E st w a = Done u w'"
  shows "pass_events (passes w) (trace w') = registry w"
proof -
  from dispatch_done [OF assms(1,2,3,5)] obtain v' w1 where
    r: "reducer_call m E st w a = Done v' w1" and p: "pass_events (passes w1) (trace w') = registry w1"
    by blast
  from r assms(4) have "passes w1 = passes w \<and> registry w1 = registry w"
    by (cases m) (auto simp: reducer_call_def run_Suc exec_0 registry_def)
  with p show ?thesis by simp
qed

lemma count_list_replicate [simp]: "count_list (replicate n x) x = n"
  by (induction n) auto

lemma unsubscribe_total:
  "h < length (closures w) \<Longrightarrow>
     \<exists>w1. unsubscribe w h = Inr w1 \<and> length (closures w1) = length (closures w)"
  by (simp add: unsubscribe_def Let_def)

lemma subscribe_total:
  "\<exists>h w1. subscribe w (Fn f) = Inr (h, w1) \<and> length (closures w1) = Suc (length (closures w))"
  by (simp add: subscribe_def Let_def)

lemma unsub_env_returns:
  "listener_returns unsub_env st p (\<lambda>w. 1 < length (closures w)) f"
  unfolding listener_returns_def
proof (intro allI impI)
  fix w :: store
  assume h: "1 < length (closures w)"
  let ?w = "w\<lparr>trace := trace w @ [Invoked p f]\<rparr>"
  show "\<exists>n v w'. run n unsub_env (InListener f # st) ?w (unsub_env f []) = Done v w' \<and>
      1 < length (closures w')"
  proof (cases "f = 1")
    case True
    from h unsubscribe_total [of 1 ?w] obtain w1 where
      u: "unsubscribe ?w 1 = Inr w1" "length (closures w1) = length (closures w)"
      by auto
    from subscribe_total [of w1 3] obtain h2 w2 where
      s: "subscribe w1 (Fn 3) = Inr (h2, w2)" "length (closures w2) = Suc (length (closures w1))"
      by blast
    have "run (Suc (Suc (Suc 0))) unsub_env (InListener f # st) ?w
        (Unsubscribe 1 (Subscribe (Fn 3) (\<lambda>h. Return Undefined))) = Done Undefined w2"
      using u s by (simp add: run_Suc)
    with True h u s show ?thesis
      by (intro exI [of _ "Suc (Suc (Suc 0))"] exI [of _ Undefined] exI [of _ w2])
        (auto simp: unsub_env_def)
  next
    case False
    then have "\<exists>x. unsub_env f [] = Return x"
      by (simp add: unsub_env_def)
    then obtain x where "unsub_env f [] = Return x"
      by blast
    with h show ?thesis
      by (intro exI [of _ "Suc 0"] exI [of _ x] exI [of _ ?w]) (simp add: run_Suc)
  qed
qed

lemma subscribed_times_fields:
  "currentReducer (subscribed_times n w (Fn f)) = currentReducer w \<and>
   currentState (subscribed_times n w (Fn f)) = currentState w \<and>
   isDispatching (subscribed_times n w (Fn f)) = isDispatching w \<and>
   passes (subscribed_times n w (Fn f)) = passes w"
proof (induction n arbitrary: w)
  case 0
  then show ?case by simp
next
  case (Suc n)
  obtain h1 w1 where s: "subscribe w (Fn f) = Inr (h1, w1)"
    by (simp add: subscribe_def Let_def)
  then have "subscribed w (Fn f) = w1"
    by (simp add: subscribed_def)
  with Suc.IH [of w1] subscribe_fields [OF s] show ?case
    by simp
qed

lemma count_list_take: "count_list (take k xs) x \<le> count_list xs x"
proof (induction xs arbitrary: k)
  case Nil
  then show ?case by simp
next
  case (Cons y ys)
  then show ?case
    by (cases k) (auto intro: le_SucI)
qed

lemma wf_count: "wf w \<Longrightarrow> count_list (registry w) f = count_list (closures w) (f, True)"
  by (simp add: wf_def)

lemma pass_counts:
  assumes "wf w" "\<not> isDispatching w" "valid_action a" "reducer_call n E st w a = Done v w1"
    "final (dispatch (Suc n) E st w a) = Some w'"
  shows "count_list (pass_events (passes w1) (trace w')) f \<le> count_list (closures w1) (f, True) \<and>
     (thrown (dispatch (Suc n) E st w a) = None \<longrightarrow>
        count_list (pass_events (passes w1) (trace w')) f = count_list (closures w1) (f, True))"
proof -
  from reducer_call_facts [OF assms(4) _ assms(1,2)] have wf1: "wf w1"
    by simp
  note c = wf_count [OF wf1, of f]
  let ?r = "notify n E st (passes w1) (nextListeners w1) 0 (committed w1 v)"
  show ?thesis
  proof (cases ?r)
    case OutOfFuel
    with assms(4,5) dispatch_steps [OF assms(2,3), of n E st] show ?thesis
      by simp
  next
    case (Done u w4)
    with assms(4,5) dispatch_steps [OF assms(2,3), of n E st] have "w4 = w'"
      by simp
    with pass_of_dispatch [OF wf1 refl, of n E st v] Done c show ?thesis
      by simp
  next
    case (Threw e w4)
    with assms(4,5) dispatch_steps [OF assms(2,3), of n E st] have w4: "w4 = w'"
      and t: "thrown (dispatch (Suc n) E st w a) = Some e"
      by simp_all
    from pass_of_dispatch [OF wf1 refl, of n E st v] Threw w4 obtain k where
      "pass_events (passes w1) (trace w') = take (Suc k) (registry w1)"
      by auto
    with count_list_take [of "Suc k" "registry w1" f] c t show ?thesis
      by simp
  qed
qed

text \<open>
  Claim C3. Subscribing a listener \<open>f\<close> \<open>n\<close> times appends \<open>n\<close> occurrences of it to
  the "next" registry. Dispatching then, in a store that did not have \<open>f\<close>, with a
  reducer call that returns and leaves the registry alone and listeners that return
  (from the stores of an invariant \<open>P\<close> they keep): every \<open>dispatch\<close> with enough fuel
  returns the action, and its pass has called the listeners of the registry in order,
  \<open>f\<close> exactly \<open>n\<close> times. Also, any \<open>dispatch\<close> that returned, with a reducer that only
  returns a value, has called \<open>f\<close> as many times as it stands in the registry. The
  first call of a closure \<open>subscribe\<close> returned for \<open>f\<close> removes from the "next"
  registry the occurrence of \<open>f\<close> at its first index (there is one, so \<open>indexOf\<close> is
  not \<open>-1\<close>) and no other element, after the copy-on-write split: the "next" array is
  then another array than the "current" one, which is untouched. Every later call of
  that closure, at once or after any other calls, leaves the store as it is.
\<close>

theorem duplicate_subscriptions:
  "(wf w \<longrightarrow>
      wf (subscribed_times n w (Fn f)) \<and>
      registry (subscribed_times n w (Fn f)) = registry w @ replicate n f \<and>
      count_list (registry (subscribed_times n w (Fn f))) f = count_list (registry w) f + n)
   \<and> (wf w \<and> f \<notin> set (registry w) \<and> \<not> isDispatching w \<and> valid_action a \<and>
       reducer_call m E st (subscribed_times n w (Fn f)) a = Done v w1 \<and>
       registry w1 = registry (subscribed_times n w (Fn f)) \<and>
       P (committed w1 v) \<and> (\<forall>g\<in>set (registry w1). listener_returns E st (passes w) P g) \<longrightarrow>
         (\<exists>N w'. (\<forall>j\<ge>N. dispatch j E st (subscribed_times n w (Fn f)) a = Done a w') \<and> P w' \<and>
            pass_events (passes w) (trace w') = registry w @ replicate n f \<and>
            count_list (pass_events (passes w) (trace w')) f = n))
   \<and> (wf w \<and> \<not> isDispatching w \<and> valid_action a \<and>
       E (currentReducer w) [currentState w, a] = Return v \<and>
       dispatch (Suc m) E st w a = Done u w' \<longrightarrow>
         pass_events (passes w) (trace w') = registry w \<and>
         count_list (pass_events (passes w) (trace w')) f = count_list (registry w) f)
   \<and> (wf w \<and> f \<notin> set (registry w) \<and> \<not> isDispatching w \<and> valid_action a \<and>
       E (currentReducer w) [currentState w, a] = Return v \<and>
       dispatch (Suc m) E st (subscribed_times n w (Fn f)) a = Done u w' \<longrightarrow>
         count_list (pass_events (passes w) (trace w')) f = n)
   \<and> (wf w \<and> live w h f \<longrightarrow>
        (\<exists>w1. unsubscribe w h = Inr w1 \<and> wf w1 \<and>
           f \<in> set (registry w) \<and>
           registry w1 = remove1 f (registry w) \<and>
           registry w1 = splice1 (indexOf (registry w) f) (registry w) \<and>
           registry w ! nat (indexOf (registry w) f) = f \<and>
           f \<notin> set (take (nat (indexOf (registry w) f)) (registry w)) \<and>
           count_list (registry w1) f + 1 = count_list (registry w) f \<and>
           (\<forall>g. g \<noteq> f \<longrightarrow> count_list (registry w1) g = count_list (registry w) g) \<and>
           nextListeners w1 \<noteq> currentListeners w1 \<and>
           arrays w1 (currentListeners w1) = arrays w (currentListeners w) \<and>
           dead w1 h \<and> unsubscribe w1 h = Inr w1))
   \<and> (dead w h \<longrightarrow> unsubscribe w h = Inr w)
   \<and> (dead (store_of c) h \<and> final (exec k E c) = Some w' \<longrightarrow> dead w' h)"
proof -
  note sub_fields = subscribed_times_fields
  have c1: "wf w \<longrightarrow>
      wf (subscribed_times n w (Fn f)) \<and>
      registry (subscribed_times n w (Fn f)) = registry w @ replicate n f \<and>
      count_list (registry (subscribed_times n w (Fn f))) f = count_list (registry w) f + n"
    using subscribed_times_registry [of w n f] by (simp add: count_list_append)
  have ct: "wf w \<and> f \<notin> set (registry w) \<and> \<not> isDispatching w \<and> valid_action a \<and>
       reducer_call m E st (subscribed_times n w (Fn f)) a = Done v w1 \<and>
       registry w1 = registry (subscribed_times n w (Fn f)) \<and>
       P (committed w1 v) \<and> (\<forall>g\<in>set (registry w1). listener_returns E st (passes w) P g) \<longrightarrow>
         (\<exists>N w'. (\<forall>j\<ge>N. dispatch j E st (subscribed_times n w (Fn f)) a = Done a w') \<and> P w' \<and>
            pass_events (passes w) (trace w') = registry w @ replicate n f \<and>
            count_list (pass_events (passes w) (trace w')) f = n)"
  proof
    assume h: "wf w \<and> f \<notin> set (registry w) \<and> \<not> isDispatching w \<and> valid_action a \<and>
       reducer_call m E st (subscribed_times n w (Fn f)) a = Done v w1 \<and>
       registry w1 = registry (subscribed_times n w (Fn f)) \<and>
       P (committed w1 v) \<and> (\<forall>g\<in>set (registry w1). listener_returns E st (passes w) P g)"
    let ?w = "subscribed_times n w (Fn f)"
    from h subscribed_times_registry [of w n f] have w: "wf ?w" "registry ?w = registry w @ replicate n f"
      by simp_all
    from h sub_fields [of n w f] have nd: "\<not> isDispatching ?w" and ps: "passes ?w = passes w"
      by simp_all
    from h have r: "reducer_call m E st ?w a = Done v w1"
      by simp
    from reducer_call_facts [OF r _ w(1) nd] ps have p1: "passes w1 = passes w"
      by simp
    from h p1 have ls: "\<forall>g\<in>set (registry w1). listener_returns E st (passes w1) P g"
      by simp
    from h have va: "valid_action a" and P0: "P (committed w1 v)"
      by simp_all
    from dispatch_returns [OF w(1) nd va r P0 ls] obtain N w' where
      d: "\<forall>j\<ge>N. dispatch j E st ?w a = Done a w'" and Pw: "P w'"
      and ev: "pass_events (passes w1) (trace w') = registry w1"
      by blast
    from ev h w(2) p1 have e: "pass_events (passes w) (trace w') = registry w @ replicate n f"
      by simp
    with h have "count_list (pass_events (passes w) (trace w')) f = n"
      by (simp add: count_list_append)
    with d Pw e show "\<exists>N w'. (\<forall>j\<ge>N. dispatch j E st ?w a = Done a w') \<and> P w' \<and>
            pass_events (passes w) (trace w') = registry w @ replicate n f \<and>
            count_list (pass_events (passes w) (trace w')) f = n"
      by blast
  qed
  have c2: "wf w \<and> \<not> isDispatching w \<and> valid_action a \<and>
       E (currentReducer w) [currentState w, a] = Return v \<and>
       dispatch (Suc m) E st w a = Done u w' \<longrightarrow>
         pass_events (passes w) (trace w') = registry w \<and>
         count_list (pass_events (passes w) (trace w')) f = count_list (registry w) f"
    using dispatch_pure_pass [of w a E v m st u w'] by simp
  have c3: "wf w \<and> f \<notin> set (registry w) \<and> \<not> isDispatching w \<and> valid_action a \<and>
       E (currentReducer w) [currentState w, a] = Return v \<and>
       dispatch (Suc m) E st (subscribed_times n w (Fn f)) a = Done u w' \<longrightarrow>
         count_list (pass_events (passes w) (trace w')) f = n"
  proof
    assume h: "wf w \<and> f \<notin> set (registry w) \<and> \<not> isDispatching w \<and> valid_action a \<and>
       E (currentReducer w) [currentState w, a] = Return v \<and>
       dispatch (Suc m) E st (subscribed_times n w (Fn f)) a = Done u w'"
    let ?w = "subscribed_times n w (Fn f)"
    from h subscribed_times_registry [of w n f] have w: "wf ?w" "registry ?w = registry w @ replicate n f"
      by simp_all
    from h sub_fields [of n w f] have "\<not> isDispatching ?w"
      "E (currentReducer ?w) [currentState ?w, a] = Return v" "passes ?w = passes w"
      by simp_all
    with dispatch_pure_pass [of ?w a E v m st u w'] w h
    have "pass_events (passes w) (trace w') = registry w @ replicate n f"
      by simp
    with h show "count_list (pass_events (passes w) (trace w')) f = n"
      by (simp add: count_list_append)
  qed
  have c4: "wf w \<and> live w h f \<longrightarrow>
        (\<exists>w1. unsubscribe w h = Inr w1 \<and> wf w1 \<and>
           f \<in> set (registry w) \<and>
           registry w1 = remove1 f (registry w) \<and>
           registry w1 = splice1 (indexOf (registry w) f) (registry w) \<and>
           registry w ! nat (indexOf (registry w) f) = f \<and>
           f \<notin> set (take (nat (indexOf (registry w) f)) (registry w)) \<and>
           count_list (registry w1) f + 1 = count_list (registry w) f \<and>
           (\<forall>g. g \<noteq> f \<longrightarrow> count_list (registry w1) g = count_list (registry w) g) \<and>
           nextListeners w1 \<noteq> currentListeners w1 \<and>
           arrays w1 (currentListeners w1) = arrays w (currentListeners w) \<and>
           dead w1 h \<and> unsubscribe w1 h = Inr w1)"
    using unsubscribe_once [of w h f] by blast
  have c5: "dead w h \<longrightarrow> unsubscribe w h = Inr w"
    by (simp add: unsubscribe_dead_noop)
  have c6: "dead (store_of c) h \<and> final (exec k E c) = Some w' \<longrightarrow> dead w' h"
    using exec_dead [of k E c w' h] by blast
  show ?thesis
    by (intro conjI c1 ct c2 c3 c4 c5 c6)
qed

theorem duplicate_subscriptions_witness:
  "wf (init_store 0 (Num 0))
   \<and> 1 \<notin> set (registry (init_store 0 (Num 0)))
   \<and> \<not> isDispatching (init_store 0 (Num 0))
   \<and> valid_action inc_action
   \<and> unsub_env (currentReducer (init_store 0 (Num 0))) [currentState (init_store 0 (Num 0)), inc_action]
        = Return (Num 1)
   \<and> registry (subscribed_times 2 (init_store 0 (Num 0)) (Fn 1)) = [1, 1]
   \<and> returned (reducer_call 1 unsub_env [] (subscribed_times 2 (init_store 0 (Num 0)) (Fn 1)) inc_action)
      = Some (Num 1)
   \<and> map_option registry
        (final (reducer_call 1 unsub_env [] (subscribed_times 2 (init_store 0 (Num 0)) (Fn 1)) inc_action))
      = Some (registry (subscribed_times 2 (init_store 0 (Num 0)) (Fn 1)))
   \<and> list_all (listener_returns unsub_env [] 0 (\<lambda>w. 1 < length (closures w))) [1, 1]
   \<and> (\<exists>N w'. (\<forall>j\<ge>N. dispatch j unsub_env [] (subscribed_times 2 (init_store 0 (Num 0)) (Fn 1)) inc_action
                 = Done inc_action w') \<and>
          pass_events 0 (trace w') = [1, 1] \<and> count_list (pass_events 0 (trace w')) 1 = 2)
   \<and> map_option (\<lambda>w'. pass_events 0 (trace w'))
        (final (dispatch (Suc 5) unsub_env [] (subscribed_times 2 (init_store 0 (Num 0)) (Fn 1)) inc_action))
      = Some [1, 1]
   \<and> map_option (\<lambda>w'. count_list (pass_events 0 (trace w')) 1)
        (final (dispatch (Suc 5) unsub_env [] (subscribed_times 2 (init_store 0 (Num 0)) (Fn 1)) inc_action))
      = Some 2
   \<and> map_option (\<lambda>w'. pass_events 1 (trace w'))
        (final (dispatch_all 6 unsub_env (subscribed_times 2 (init_store 0 (Num 0)) (Fn 1))
           [inc_action, inc_action]))
      = Some [1, 3, 3]
   \<and> live (subscribed_times 2 (init_store 0 (Num 0)) (Fn 1)) 0 1
   \<and> (\<exists>w1. unsubscribe (subscribed_times 2 (init_store 0 (Num 0)) (Fn 1)) 0 = Inr w1 \<and>
          registry w1 = [1] \<and> dead w1 0 \<and> unsubscribe w1 0 = Inr w1)"
proof -
  let ?I = "init_store 0 (Num 0)"
  let ?W = "subscribed_times 2 ?I (Fn 1)"
  let ?P = "\<lambda>w. 1 < length (closures w)"
  note T1 = duplicate_subscriptions [where w = ?I and n = 2 and f = 1, THEN conjunct1, THEN mp]
  note T4 = duplicate_subscriptions [where w = ?I and n = 2 and f = 1 and a = inc_action
      and E = unsub_env and v = "Num 1" and m = 5 and st = "[]",
      THEN conjunct2, THEN conjunct2, THEN conjunct2, THEN conjunct1, THEN mp]
  note U = duplicate_subscriptions [where w = ?W and h = 0 and f = 1,
      THEN conjunct2, THEN conjunct2, THEN conjunct2, THEN conjunct2, THEN conjunct1, THEN mp]
  have i1: "wf ?I"
    by simp
  have i2: "1 \<notin> set (registry ?I)" "\<not> isDispatching ?I"
    by (simp_all add: registry_def init_store_def)
  note i = i1 i2
  have ps: "passes ?I = 0" "registry ?I = []"
    by (simp_all add: init_store_def registry_def)
  have b: "unsub_env (currentReducer ?I) [currentState ?I, inc_action] = Return (Num 1)"
    by (simp add: unsub_env_def init_store_def inc_action_def get_prop_def)
  have "wf ?W \<and> registry ?W = registry ?I @ replicate 2 1 \<and>
      count_list (registry ?W) 1 = count_list (registry ?I) 1 + 2"
    by (rule T1) (rule i1)
  then have r: "wf ?W" "registry ?W = [1, 1]"
    by (simp_all add: ps eval_nat_numeral)
  have "\<exists>w1. reducer_call 1 unsub_env [] ?W inc_action = Done (Num 1) w1 \<and>
      registry w1 = [1, 1] \<and> 1 < length (closures w1)"
    by (simp add: reducer_call_def eval_store unsub_env_def)
  then obtain w1 where r1: "reducer_call 1 unsub_env [] ?W inc_action = Done (Num 1) w1"
    and f1: "registry w1 = [1, 1]" "1 < length (closures w1)"
    by blast
  have lr: "list_all (listener_returns unsub_env [] 0 ?P) [1, 1]"
    using unsub_env_returns [of "[]" 0 1] by simp
  note T2 = duplicate_subscriptions [where w = ?I and n = 2 and f = 1 and a = inc_action
      and E = unsub_env and v = "Num 1" and m = 1 and st = "[]" and ?w1.0 = w1 and P = ?P,
      THEN conjunct2, THEN conjunct1, THEN mp]
  have "\<exists>N w'. (\<forall>j\<ge>N. dispatch j unsub_env [] ?W inc_action = Done inc_action w') \<and> ?P w' \<and>
      pass_events (passes ?I) (trace w') = registry ?I @ replicate 2 1 \<and>
      count_list (pass_events (passes ?I) (trace w')) 1 = 2"
    by (rule T2) (insert i r1 f1 r(2) lr, simp add: ps)
  then have t: "\<exists>N w'. (\<forall>j\<ge>N. dispatch j unsub_env [] ?W inc_action = Done inc_action w') \<and>
      pass_events 0 (trace w') = [1, 1] \<and> count_list (pass_events 0 (trace w')) 1 = 2"
    unfolding ps by (auto simp: eval_nat_numeral)
  have "\<exists>w'. dispatch (Suc 5) unsub_env [] ?W inc_action = Done inc_action w' \<and>
      pass_events 0 (trace w') = [1, 1]"
    by (simp add: eval_store unsub_env_def unsubscribe_def splice1_def subscribe_def)
  then obtain w' where d: "dispatch (Suc 5) unsub_env [] ?W inc_action = Done inc_action w'"
    and p0: "pass_events 0 (trace w') = [1, 1]"
    by blast
  have "count_list (pass_events (passes ?I) (trace w')) 1 = 2"
    by (rule T4) (insert i b d, simp)
  then have cnt: "count_list (pass_events 0 (trace w')) 1 = 2"
    by (simp add: ps)
  have a: "\<exists>w''. dispatch_all 6 unsub_env ?W [inc_action, inc_action] = Done [Num 1, Num 2] w'' \<and>
      pass_events 1 (trace w'') = [1, 3, 3]"
    by (simp add: eval_store unsub_env_def unsubscribe_def splice1_def subscribe_def)
  have l: "live ?W 0 1"
    by (simp add: live_def eval_store)
  from U r(1) l obtain w2 where u: "unsubscribe ?W 0 = Inr w2" "registry w2 = remove1 1 (registry ?W)"
    "dead w2 0" "unsubscribe w2 0 = Inr w2"
    by blast
  from u(2) r(2) have "registry w2 = [1]"
    by simp
  with i b r r1 f1 lr t d p0 cnt a l u show ?thesis
    by auto
qed

text \<open>
  Claim C2, amended. A notification pass over an array out of the reach of \<open>subscribe\<close>
  and \<open>unsubscribe\<close> calls the listeners the array held when the pass began, in order,
  whatever the listeners do (subscribe, unsubscribe, dispatch again): all of them when
  the pass completes, those up to the one that throws otherwise; the array is the same
  at the end. With enough fuel the pass completes when its listeners return, and throws,
  after the listeners up to that one, when the listeners before one return and that one
  throws. The pass of a \<open>dispatch\<close> is such a pass, over the "next" registry as it was when the reducer
  returned, and \<open>dispatch\<close> returns when the reducer call and the listeners return.
  \<open>subscribe\<close> appends to the "next" registry and the first call of a closure removes
  one occurrence of its listener from it, at any time, and neither touches an array out
  of their reach: so the snapshot of the next pass is the registry with every such call
  made before it. A closure that was called is dead from then on, through every later
  call, and no longer counts: in every store reached from the one \<open>createStore\<close> starts
  from, the registry holds a listener once per closure of it not yet called, and every
  pass of a \<open>dispatch\<close> from such a store calls a listener at most that many times,
  exactly that many times when it completes, and not at all when none is left.
\<close>

theorem snapshot_semantics:
  "(protected l w \<and> p < passes w \<and> pass_events p (trace w) = [] \<and>
    notify n E st p l 0 w = Done u w' \<longrightarrow>
      pass_events p (trace w') = arrays w l \<and> arrays w' l = arrays w l)
   \<and> (protected l w \<and> p < passes w \<and> pass_events p (trace w) = [] \<and>
      notify n E st p l 0 w = Threw e w' \<longrightarrow>
        (\<exists>k<length (arrays w l). pass_events p (trace w') = take (Suc k) (arrays w l)) \<and>
        arrays w' l = arrays w l)
   \<and> (protected l w \<and> p < passes w \<and> pass_events p (trace w) = [] \<and> P w \<and>
      (\<forall>f\<in>set (arrays w l). listener_returns E st p P f) \<longrightarrow>
        (\<exists>N u w'. (\<forall>j\<ge>N. notify j E st p l 0 w = Done u w') \<and> P w' \<and>
           pass_events p (trace w') = arrays w l \<and> arrays w' l = arrays w l))
   \<and> (protected l w \<and> p < passes w \<and> pass_events p (trace w) = [] \<and> P w \<and> i < length (arrays w l) \<and>
      (\<forall>j<i. listener_returns E st p P (arrays w l ! j)) \<and>
      listener_throws E st p P Q e (arrays w l ! i) \<longrightarrow>
        (\<exists>N w'. (\<forall>j\<ge>N. notify j E st p l 0 w = Threw e w') \<and> Q w' \<and>
           pass_events p (trace w') = take (Suc i) (arrays w l) \<and> arrays w' l = arrays w l))
   \<and> (wf w \<and> \<not> isDispatching w \<and> valid_action a \<and> dispatch (Suc n) E st w a = Done u w' \<longrightarrow>
        wf w' \<and>
        (\<exists>v w1 x. reducer_call n E st w a = Done v w1 \<and>
           protected (nextListeners w1) (committed w1 v) \<and>
           notify n E st (passes w1) (nextListeners w1) 0 (committed w1 v) = Done x w' \<and>
           pass_events (passes w1) (trace w') = registry w1))
   \<and> (wf w \<and> \<not> isDispatching w \<and> valid_action a \<and> reducer_call m E st w a = Done v w1 \<and>
       P (committed w1 v) \<and> (\<forall>f\<in>set (registry w1). listener_returns E st (passes w1) P f) \<longrightarrow>
        (\<exists>N w'. (\<forall>j\<ge>N. dispatch j E st w a = Done a w') \<and> P w' \<and> wf w' \<and>
           pass_events (passes w1) (trace w') = registry w1 \<and>
           count_list (pass_events (passes w1) (trace w')) f = count_list (closures w1) (f, True)))
   \<and> (wf w \<and> \<not> isDispatching w \<and> valid_action a \<and> reducer_call n E st w a = Done v w1 \<and>
       final (dispatch (Suc n) E st w a) = Some w' \<longrightarrow>
        count_list (registry w1) f = count_list (closures w1) (f, True) \<and>
        count_list (pass_events (passes w1) (trace w')) f \<le> count_list (closures w1) (f, True) \<and>
        (thrown (dispatch (Suc n) E st w a) = None \<longrightarrow>
           count_list (pass_events (passes w1) (trace w')) f = count_list (closures w1) (f, True)) \<and>
        ((f, True) \<notin> set (closures w1) \<longrightarrow> f \<notin> set (pass_events (passes w1) (trace w'))))
   \<and> (subscribe w x = Inr (h, w1) \<longrightarrow>
        (\<exists>f. x = Fn f \<and> registry w1 = registry w @ [f] \<and> live w1 h f) \<and>
        (wf w \<longrightarrow> wf w1) \<and>
        (protected l w \<longrightarrow> protected l w1 \<and> arrays w1 l = arrays w l) \<and>
        (\<forall>h'. dead w h' \<longrightarrow> dead w1 h'))
   \<and> (wf w \<and> live w h f \<and> unsubscribe w h = Inr w1 \<longrightarrow>
        registry w1 = remove1 f (registry w) \<and> wf w1 \<and> dead w1 h \<and>
        count_list (closures w1) (f, True) + 1 = count_list (closures w) (f, True) \<and>
        (protected l w \<longrightarrow> protected l w1 \<and> arrays w1 l = arrays w l) \<and>
        (\<forall>h'. dead w h' \<longrightarrow> dead w1 h') \<and>
        (count_list (registry w) f = 1 \<longrightarrow> f \<notin> set (registry w1)))
   \<and> (dead (store_of c) h \<and> final (exec k E c) = Some w' \<longrightarrow> dead w' h)
   \<and> (wf (store_of c) \<and> (case c of NotifyLoop st p l i w \<Rightarrow> p < passes w | _ \<Rightarrow> True) \<and>
       final (exec k E c) = Some w' \<longrightarrow> wf w')
   \<and> (wf w \<and> \<not> isDispatching w \<and> valid_action a \<and>
       E (currentReducer w) [currentState w, a] = Return v \<and> f \<notin> set (registry w) \<and>
       dispatch (Suc n) E st w a = Done u w' \<longrightarrow>
         f \<notin> set (pass_events (passes w) (trace w')))
   \<and> wf (init_store r s0)"
proof -
  have c1: "protected l w \<and> p < passes w \<and> pass_events p (trace w) = [] \<and>
    notify n E st p l 0 w = Done u w' \<longrightarrow>
      pass_events p (trace w') = arrays w l \<and> arrays w' l = arrays w l"
    using notify_pass [of n E st p l 0 w "Done u w'"] by (simp add: notify_def)
  have c2: "protected l w \<and> p < passes w \<and> pass_events p (trace w) = [] \<and>
      notify n E st p l 0 w = Threw e w' \<longrightarrow>
        (\<exists>k<length (arrays w l). pass_events p (trace w') = take (Suc k) (arrays w l)) \<and>
        arrays w' l = arrays w l"
    using notify_pass [of n E st p l 0 w "Threw e w'"] by (auto simp: notify_def)
  have t1: "protected l w \<and> p < passes w \<and> pass_events p (trace w) = [] \<and> P w \<and>
      (\<forall>f\<in>set (arrays w l). listener_returns E st p P f) \<longrightarrow>
        (\<exists>N u w'. (\<forall>j\<ge>N. notify j E st p l 0 w = Done u w') \<and> P w' \<and>
           pass_events p (trace w') = arrays w l \<and> arrays w' l = arrays w l)"
  proof
    assume h: "protected l w \<and> p < passes w \<and> pass_events p (trace w) = [] \<and> P w \<and>
      (\<forall>f\<in>set (arrays w l). listener_returns E st p P f)"
    then have "\<forall>f\<in>set (drop 0 (arrays w l)). listener_returns E st p P f"
      by simp
    from pass_returns [of l w p P 0 E st, OF _ _ _ this] h
    show "\<exists>N u w'. (\<forall>j\<ge>N. notify j E st p l 0 w = Done u w') \<and> P w' \<and>
           pass_events p (trace w') = arrays w l \<and> arrays w' l = arrays w l"
      by auto
  qed
  have t3: "protected l w \<and> p < passes w \<and> pass_events p (trace w) = [] \<and> P w \<and> i < length (arrays w l) \<and>
      (\<forall>j<i. listener_returns E st p P (arrays w l ! j)) \<and>
      listener_throws E st p P Q e (arrays w l ! i) \<longrightarrow>
        (\<exists>N w'. (\<forall>j\<ge>N. notify j E st p l 0 w = Threw e w') \<and> Q w' \<and>
           pass_events p (trace w') = take (Suc i) (arrays w l) \<and> arrays w' l = arrays w l)"
  proof
    assume h: "protected l w \<and> p < passes w \<and> pass_events p (trace w) = [] \<and> P w \<and> i < length (arrays w l) \<and>
      (\<forall>j<i. listener_returns E st p P (arrays w l ! j)) \<and>
      listener_throws E st p P Q e (arrays w l ! i)"
    then have b: "\<forall>j. 0 \<le> j \<and> j < i \<longrightarrow> listener_returns E st p P (arrays w l ! j)"
      by simp
    from h have "0 \<le> i" "i < length (arrays w l)" "listener_throws E st p P Q e (arrays w l ! i)"
      "protected l w" "p < passes w" "P w"
      by simp_all
    from pass_throws_at [OF this(4,5,6,1,2) b this(3)] h
    show "\<exists>N w'. (\<forall>j\<ge>N. notify j E st p l 0 w = Threw e w') \<and> Q w' \<and>
           pass_events p (trace w') = take (Suc i) (arrays w l) \<and> arrays w' l = arrays w l"
      by auto
  qed
  have c3: "wf w \<and> \<not> isDispatching w \<and> valid_action a \<and> dispatch (Suc n) E st w a = Done u w' \<longrightarrow>
        wf w' \<and>
        (\<exists>v w1 x. reducer_call n E st w a = Done v w1 \<and>
           protected (nextListeners w1) (committed w1 v) \<and>
           notify n E st (passes w1) (nextListeners w1) 0 (committed w1 v) = Done x w' \<and>
           pass_events (passes w1) (trace w') = registry w1)"
  proof
    assume h: "wf w \<and> \<not> isDispatching w \<and> valid_action a \<and> dispatch (Suc n) E st w a = Done u w'"
    then have "final (exec (Suc n) E (DispatchCall st w a)) = Some w'"
      by (simp add: dispatch_def)
    from exec_wf [OF this] h have wf': "wf w'"
      by simp
    from h dispatch_done [of w a n E st u w'] obtain v w1 x where
      r: "reducer_call n E st w a = Done v w1"
      and p: "notify n E st (passes w1) (nextListeners w1) 0 (committed w1 v) = Done x w'"
      and e: "pass_events (passes w1) (trace w') = registry w1"
      by blast
    from reducer_call_facts [OF r _ ] h have "wf w1"
      by simp
    then have "protected (nextListeners w1) (committed w1 v)"
      by (rule committed_protected)
    with wf' r p e show "wf w' \<and>
        (\<exists>v w1 x. reducer_call n E st w a = Done v w1 \<and>
           protected (nextListeners w1) (committed w1 v) \<and>
           notify n E st (passes w1) (nextListeners w1) 0 (committed w1 v) = Done x w' \<and>
           pass_events (passes w1) (trace w') = registry w1)"
      by blast
  qed
  have t2: "wf w \<and> \<not> isDispatching w \<and> valid_action a \<and> reducer_call m E st w a = Done v w1 \<and>
       P (committed w1 v) \<and> (\<forall>f\<in>set (registry w1). listener_returns E st (passes w1) P f) \<longrightarrow>
        (\<exists>N w'. (\<forall>j\<ge>N. dispatch j E st w a = Done a w') \<and> P w' \<and> wf w' \<and>
           pass_events (passes w1) (trace w') = registry w1 \<and>
           count_list (pass_events (passes w1) (trace w')) f = count_list (closures w1) (f, True))"
  proof
    assume h: "wf w \<and> \<not> isDispatching w \<and> valid_action a \<and> reducer_call m E st w a = Done v w1 \<and>
       P (committed w1 v) \<and> (\<forall>f\<in>set (registry w1). listener_returns E st (passes w1) P f)"
    then have r: "reducer_call m E st w a = Done v w1" and w: "wf w" and nd: "\<not> isDispatching w"
      by simp_all
    from reducer_call_facts [OF r _ w nd] have wf1: "wf w1"
      by simp
    from h dispatch_returns [of w a m E st v w1 P] obtain N w' where
      d: "\<forall>j\<ge>N. dispatch j E st w a = Done a w'" "P w'" "wf w'"
      and ev: "pass_events (passes w1) (trace w') = registry w1"
      by blast
    from ev wf_count [OF wf1, of f]
    have "count_list (pass_events (passes w1) (trace w')) f = count_list (closures w1) (f, True)"
      by simp
    with d ev
    show "\<exists>N w'. (\<forall>j\<ge>N. dispatch j E st w a = Done a w') \<and> P w' \<and> wf w' \<and>
           pass_events (passes w1) (trace w') = registry w1 \<and>
           count_list (pass_events (passes w1) (trace w')) f = count_list (closures w1) (f, True)"
      by blast
  qed
  have lp: "wf w \<and> \<not> isDispatching w \<and> valid_action a \<and> reducer_call n E st w a = Done v w1 \<and>
       final (dispatch (Suc n) E st w a) = Some w' \<longrightarrow>
        count_list (registry w1) f = count_list (closures w1) (f, True) \<and>
        count_list (pass_events (passes w1) (trace w')) f \<le> count_list (closures w1) (f, True) \<and>
        (thrown (dispatch (Suc n) E st w a) = None \<longrightarrow>
           count_list (pass_events (passes w1) (trace w')) f = count_list (closures w1) (f, True)) \<and>
        ((f, True) \<notin> set (closures w1) \<longrightarrow> f \<notin> set (pass_events (passes w1) (trace w')))"
  proof
    assume h: "wf w \<and> \<not> isDispatching w \<and> valid_action a \<and> reducer_call n E st w a = Done v w1 \<and>
       final (dispatch (Suc n) E st w a) = Some w'"
    then have r: "reducer_call n E st w a = Done v w1" and w: "wf w" and nd: "\<not> isDispatching w"
      by simp_all
    from reducer_call_facts [OF r _ w nd] have wf1: "wf w1"
      by simp
    from h pass_counts [of w a n E st v w1 w' f] have
      le: "count_list (pass_events (passes w1) (trace w')) f \<le> count_list (closures w1) (f, True)"
      and eq: "thrown (dispatch (Suc n) E st w a) = None \<longrightarrow>
           count_list (pass_events (passes w1) (trace w')) f = count_list (closures w1) (f, True)"
      by simp_all
    have "(f, True) \<notin> set (closures w1) \<longrightarrow> f \<notin> set (pass_events (passes w1) (trace w'))"
    proof
      assume "(f, True) \<notin> set (closures w1)"
      then have "count_list (closures w1) (f, True) = 0"
        by (simp add: count_list_0_iff)
      with le have "count_list (pass_events (passes w1) (trace w')) f = 0"
        by simp
      then show "f \<notin> set (pass_events (passes w1) (trace w'))"
        by (simp add: count_list_0_iff)
    qed
    with le eq wf_count [OF wf1, of f]
    show "count_list (registry w1) f = count_list (closures w1) (f, True) \<and>
        count_list (pass_events (passes w1) (trace w')) f \<le> count_list (closures w1) (f, True) \<and>
        (thrown (dispatch (Suc n) E st w a) = None \<longrightarrow>
           count_list (pass_events (passes w1) (trace w')) f = count_list (closures w1) (f, True)) \<and>
        ((f, True) \<notin> set (closures w1) \<longrightarrow> f \<notin> set (pass_events (passes w1) (trace w')))"
      by blast
  qed
  have c4: "subscribe w x = Inr (h, w1) \<longrightarrow>
        (\<exists>f. x = Fn f \<and> registry w1 = registry w @ [f] \<and> live w1 h f) \<and>
        (wf w \<longrightarrow> wf w1) \<and>
        (protected l w \<longrightarrow> protected l w1 \<and> arrays w1 l = arrays w l) \<and>
        (\<forall>h'. dead w h' \<longrightarrow> dead w1 h')"
  proof
    assume s: "subscribe w x = Inr (h, w1)"
    from subscribe_Inr [OF s] have "\<exists>f. x = Fn f \<and> registry w1 = registry w @ [f] \<and> live w1 h f"
      by (auto simp: live_def)
    with subscribe_wf [OF s] subscribe_frame [OF s, of l] subscribe_dead [OF s]
    show "(\<exists>f. x = Fn f \<and> registry w1 = registry w @ [f] \<and> live w1 h f) \<and>
        (wf w \<longrightarrow> wf w1) \<and>
        (protected l w \<longrightarrow> protected l w1 \<and> arrays w1 l = arrays w l) \<and>
        (\<forall>h'. dead w h' \<longrightarrow> dead w1 h')"
      by blast
  qed
  have c5: "wf w \<and> live w h f \<and> unsubscribe w h = Inr w1 \<longrightarrow>
        registry w1 = remove1 f (registry w) \<and> wf w1 \<and> dead w1 h \<and>
        count_list (closures w1) (f, True) + 1 = count_list (closures w) (f, True) \<and>
        (protected l w \<longrightarrow> protected l w1 \<and> arrays w1 l = arrays w l) \<and>
        (\<forall>h'. dead w h' \<longrightarrow> dead w1 h') \<and>
        (count_list (registry w) f = 1 \<longrightarrow> f \<notin> set (registry w1))"
  proof
    assume h: "wf w \<and> live w h f \<and> unsubscribe w h = Inr w1"
    then have u: "unsubscribe w h = Inr w1" by simp
    from h unsubscribe_once [of w h f] have o: "registry w1 = remove1 f (registry w)" "wf w1" "dead w1 h"
      "count_list (registry w1) f + 1 = count_list (registry w) f"
      by auto
    from o(4) have "count_list (registry w) f = 1 \<longrightarrow> f \<notin> set (registry w1)"
      using count_list_pos [of "registry w1" f] by auto
    moreover from o(4) h wf_count [of w f] wf_count [OF o(2), of f]
    have "count_list (closures w1) (f, True) + 1 = count_list (closures w) (f, True)"
      by simp
    ultimately show "registry w1 = remove1 f (registry w) \<and> wf w1 \<and> dead w1 h \<and>
        count_list (closures w1) (f, True) + 1 = count_list (closures w) (f, True) \<and>
        (protected l w \<longrightarrow> protected l w1 \<and> arrays w1 l = arrays w l) \<and>
        (\<forall>h'. dead w h' \<longrightarrow> dead w1 h') \<and>
        (count_list (registry w) f = 1 \<longrightarrow> f \<notin> set (registry w1))"
      using o unsubscribe_frame [OF u, of l] unsubscribe_dead [OF u] by blast
  qed
  have c6: "dead (store_of c) h \<and> final (exec k E c) = Some w' \<longrightarrow> dead w' h"
    using exec_dead [of k E c w' h] by blast
  have c7: "wf (store_of c) \<and> (case c of NotifyLoop st p l i w \<Rightarrow> p < passes w | _ \<Rightarrow> True) \<and>
       final (exec k E c) = Some w' \<longrightarrow> wf w'"
    using exec_wf [of k E c w'] by blast
  have c8: "wf w \<and> \<not> isDispatching w \<and> valid_action a \<and>
       E (currentReducer w) [currentState w, a] = Return v \<and> f \<notin> set (registry w) \<and>
       dispatch (Suc n) E st w a = Done u w' \<longrightarrow>
         f \<notin> set (pass_events (passes w) (trace w'))"
    using dispatch_pure_pass [of w a E v n st u w'] by simp
  have c9: "wf (init_store r s0)"
    by simp
  show ?thesis
    by (intro conjI c1 c2 t1 t3 c3 t2 lp c4 c5 c6 c7 c8 c9)
qed

text \<open>
  Claim C2 as stated fails for a listener subscribed twice. Listener 1 of \<open>unsub_env\<close>
  is subscribed twice (closures 0 and 1) and calls closure 1 during the pass of the first
  \<open>dispatch\<close>: that pass calls it twice, its second subscription is cancelled during
  the pass, and the pass of the second \<open>dispatch\<close> calls it again, for the subscription
  that is left.
\<close>

theorem unsubscribed_once_counterexample:
  "closures (subscribed_times 2 (init_store 0 (Num 0)) (Fn 1)) = [(1, True), (1, True)]
   \<and> map_option (\<lambda>w'. (pass_events 0 (trace w'), closures w' ! 1, registry w'))
        (final (dispatch 6 unsub_env [] (subscribed_times 2 (init_store 0 (Num 0)) (Fn 1)) inc_action))
      = Some ([1, 1], (1, False), [1, 3, 3])
   \<and> map_option (\<lambda>w'. pass_events 1 (trace w'))
        (final (dispatch_all 6 unsub_env (subscribed_times 2 (init_store 0 (Num 0)) (Fn 1))
           [inc_action, inc_action]))
      = Some [1, 3, 3]"
  by (simp add: eval_store unsub_env_def unsubscribe_def splice1_def subscribe_def)

theorem snapshot_semantics_witness:
  "protected 1 (committed (subscribed (subscribed (init_store 0 (Num 0)) (Fn 1)) (Fn 2)) (Num 1))
   \<and> 0 < passes (committed (subscribed (subscribed (init_store 0 (Num 0)) (Fn 1)) (Fn 2)) (Num 1))
   \<and> pass_events 0 (trace (committed (subscribed (subscribed (init_store 0 (Num 0)) (Fn 1)) (Fn 2)) (Num 1))) = []
   \<and> arrays (committed (subscribed (subscribed (init_store 0 (Num 0)) (Fn 1)) (Fn 2)) (Num 1)) 1 = [1, 2]
   \<and> map_option (\<lambda>w'. (pass_events 0 (trace w'), arrays w' 1, registry w'))
        (final (notify 5 unsub_env [] 0 1 0
           (committed (subscribed (subscribed (init_store 0 (Num 0)) (Fn 1)) (Fn 2)) (Num 1))))
      = Some ([1, 2], [1, 2], [1, 3])
   \<and> 1 < length (closures (committed (subscribed (subscribed (init_store 0 (Num 0)) (Fn 1)) (Fn 2)) (Num 1)))
   \<and> list_all (listener_returns unsub_env [] 0 (\<lambda>w. 1 < length (closures w))) [1, 2]
   \<and> (\<exists>N u w'. (\<forall>j\<ge>N. notify j unsub_env [] 0 1 0
                    (committed (subscribed (subscribed (init_store 0 (Num 0)) (Fn 1)) (Fn 2)) (Num 1))
                  = Done u w') \<and>
          pass_events 0 (trace w') = [1, 2] \<and> arrays w' 1 = [1, 2])
   \<and> protected 1 (committed (subscribed (subscribed (init_store 0 (Num 0)) (Fn 2)) (Fn 1)) (Num 1))
   \<and> arrays (committed (subscribed (subscribed (init_store 0 (Num 0)) (Fn 2)) (Fn 1)) (Num 1)) 1 = [2, 1]
   \<and> listener_returns failing_env [] 0 (\<lambda>w. True) 2
   \<and> listener_throws failing_env [] 0 (\<lambda>w. True) (\<lambda>w. True) (Error ''listener failed'') 1
   \<and> (\<exists>N w'. (\<forall>j\<ge>N. notify j failing_env [] 0 1 0
                  (committed (subscribed (subscribed (init_store 0 (Num 0)) (Fn 2)) (Fn 1)) (Num 1))
                = Threw (Error ''listener failed'') w') \<and>
          pass_events 0 (trace w') = [2, 1] \<and> arrays w' 1 = [2, 1])
   \<and> wf (subscribed (subscribed (init_store 0 (Num 0)) (Fn 1)) (Fn 2))
   \<and> \<not> isDispatching (subscribed (subscribed (init_store 0 (Num 0)) (Fn 1)) (Fn 2))
   \<and> valid_action inc_action
   \<and> (\<exists>N w'. (\<forall>j\<ge>N. dispatch j unsub_env [] (subscribed (subscribed (init_store 0 (Num 0)) (Fn 1)) (Fn 2))
                  inc_action = Done inc_action w') \<and>
          wf w' \<and> pass_events 0 (trace w') = [1, 2] \<and> count_list (pass_events 0 (trace w')) 2 = 1)
   \<and> map_option (\<lambda>w'. (pass_events 0 (trace w'), pass_events 1 (trace w')))
        (final (dispatch_all 6 unsub_env (subscribed (subscribed (init_store 0 (Num 0)) (Fn 1)) (Fn 2))
           [inc_action, inc_action]))
      = Some ([1, 2], [1, 3])
   \<and> (\<exists>wa w1 w''. dispatch 6 unsub_env [] (subscribed (subscribed (init_store 0 (Num 0)) (Fn 1)) (Fn 2))
            inc_action = Done inc_action wa \<and>
          wf wa \<and> \<not> isDispatching wa \<and> closures wa = [(1, True), (2, False), (3, True)] \<and>
          reducer_call 5 unsub_env [] wa inc_action = Done (Num 2) w1 \<and>
          closures w1 = closures wa \<and> passes w1 = 1 \<and>
          final (dispatch 6 unsub_env [] wa inc_action) = Some w'' \<and>
          count_list (pass_events 1 (trace w'')) 2 \<le> 0 \<and>
          2 \<notin> set (pass_events 1 (trace w'')))
   \<and> live (subscribed (subscribed (init_store 0 (Num 0)) (Fn 1)) (Fn 2)) 1 2
   \<and> count_list (registry (subscribed (subscribed (init_store 0 (Num 0)) (Fn 1)) (Fn 2))) 2 = 1
   \<and> (\<exists>w1. unsubscribe (subscribed (subscribed (init_store 0 (Num 0)) (Fn 1)) (Fn 2)) 1 = Inr w1 \<and>
          registry w1 = [1] \<and> dead w1 1 \<and> 2 \<notin> set (registry w1))"
proof -
  let ?W = "subscribed (subscribed (init_store 0 (Num 0)) (Fn 1)) (Fn 2)"
  let ?P = "committed ?W (Num 1)"
  let ?Q = "\<lambda>w. 1 < length (closures w)"
  have h: "protected 1 ?P" "0 < passes ?P" "pass_events 0 (trace ?P) = []" "arrays ?P 1 = [1, 2]"
    by (simp_all add: protected_def committed_def eval_store)
  have "\<exists>w'. notify 5 unsub_env [] 0 1 0 ?P = Done Undefined w' \<and> registry w' = [1, 3]"
    by (simp add: eval_store committed_def unsub_env_def unsubscribe_def splice1_def subscribe_def)
  then obtain w' where n: "notify 5 unsub_env [] 0 1 0 ?P = Done Undefined w'" and r: "registry w' = [1, 3]"
    by blast
  note A = snapshot_semantics [where l = 1 and w = ?P and p = 0 and n = 5 and E = unsub_env and st = "[]"
      and u = Undefined and w' = w', THEN conjunct1, THEN mp]
  have "pass_events 0 (trace w') = arrays ?P 1 \<and> arrays w' 1 = arrays ?P 1"
    by (rule A) (insert h n, simp)
  with h(4) have a: "pass_events 0 (trace w') = [1, 2]" "arrays w' 1 = [1, 2]"
    by simp_all
  have q: "?Q ?P"
    by (simp add: eval_store)
  have lr: "list_all (listener_returns unsub_env [] 0 ?Q) [1, 2]"
    using unsub_env_returns [of "[]" 0 1] unsub_env_returns [of "[]" 0 2] by simp
  note T = snapshot_semantics [where l = 1 and w = ?P and p = 0 and E = unsub_env and st = "[]"
      and P = ?Q, THEN conjunct2, THEN conjunct2, THEN conjunct1, THEN mp]
  have "\<exists>N u w'. (\<forall>j\<ge>N. notify j unsub_env [] 0 1 0 ?P = Done u w') \<and> ?Q w' \<and>
      pass_events 0 (trace w') = arrays ?P 1 \<and> arrays w' 1 = arrays ?P 1"
    by (rule T) (insert h q lr, simp)
  then have t: "\<exists>N u w'. (\<forall>j\<ge>N. notify j unsub_env [] 0 1 0 ?P = Done u w') \<and>
      pass_events 0 (trace w') = [1, 2] \<and> arrays w' 1 = [1, 2]"
    unfolding h(4) by blast
  let ?F = "committed (subscribed (subscribed (init_store 0 (Num 0)) (Fn 2)) (Fn 1)) (Num 1)"
  let ?T = "\<lambda>w :: store. True"
  have hf: "protected 1 ?F" "0 < passes ?F" "pass_events 0 (trace ?F) = []" "arrays ?F 1 = [2, 1]"
    by (simp_all add: protected_def committed_def eval_store)
  have fr: "listener_returns failing_env [] 0 ?T 2"
    unfolding listener_returns_def
    by (intro allI impI exI [of _ "Suc 0"]) (simp add: run_Suc failing_env_def)
  have ft: "listener_throws failing_env [] 0 ?T ?T (Error ''listener failed'') 1"
    unfolding listener_throws_def
    by (intro allI impI exI [of _ "Suc 0"]) (simp add: run_Suc failing_env_def)
  note TT = snapshot_semantics [where l = 1 and w = ?F and p = 0 and E = failing_env and st = "[]"
      and P = ?T and Q = ?T and i = 1 and e = "Error ''listener failed''",
      THEN conjunct2, THEN conjunct2, THEN conjunct2, THEN conjunct1, THEN mp]
  have "\<exists>N w'. (\<forall>j\<ge>N. notify j failing_env [] 0 1 0 ?F = Threw (Error ''listener failed'') w') \<and> ?T w' \<and>
      pass_events 0 (trace w') = take (Suc 1) (arrays ?F 1) \<and> arrays w' 1 = arrays ?F 1"
    by (rule TT) (insert hf fr ft, simp add: less_Suc_eq)
  then have tt: "\<exists>N w'. (\<forall>j\<ge>N. notify j failing_env [] 0 1 0 ?F = Threw (Error ''listener failed'') w') \<and>
      pass_events 0 (trace w') = [2, 1] \<and> arrays w' 1 = [2, 1]"
    unfolding hf(4) by simp
  have w: "wf ?W"
    by simp
  have nd: "\<not> isDispatching ?W"
    by (simp add: eval_store)
  have "\<exists>w0. reducer_call 1 unsub_env [] ?W inc_action = Done (Num 1) w0 \<and>
      registry w0 = [1, 2] \<and> passes w0 = 0 \<and> closures w0 = [(1, True), (2, True)]"
    by (simp add: reducer_call_def eval_store unsub_env_def)
  then obtain w0 where r0: "reducer_call 1 unsub_env [] ?W inc_action = Done (Num 1) w0"
    and f0: "registry w0 = [1, 2]" "passes w0 = 0" "closures w0 = [(1, True), (2, True)]"
    by blast
  note T5 = snapshot_semantics [where w = ?W and a = inc_action and m = 1 and E = unsub_env and st = "[]"
      and v = "Num 1" and ?w1.0 = w0 and P = ?Q and f = 2,
      THEN conjunct2, THEN conjunct2, THEN conjunct2, THEN conjunct2, THEN conjunct2, THEN conjunct1, THEN mp]
  have "\<exists>N w'. (\<forall>j\<ge>N. dispatch j unsub_env [] ?W inc_action = Done inc_action w') \<and> ?Q w' \<and> wf w' \<and>
      pass_events (passes w0) (trace w') = registry w0 \<and>
      count_list (pass_events (passes w0) (trace w')) 2 = count_list (closures w0) (2, True)"
    by (rule T5) (insert w nd r0 f0 lr, simp)
  then have t5: "\<exists>N w'. (\<forall>j\<ge>N. dispatch j unsub_env [] ?W inc_action = Done inc_action w') \<and>
      wf w' \<and> pass_events 0 (trace w') = [1, 2] \<and> count_list (pass_events 0 (trace w')) 2 = 1"
    unfolding f0 by auto
  have d: "\<exists>w''. dispatch_all 6 unsub_env ?W [inc_action, inc_action] = Done [Num 1, Num 2] w'' \<and>
      pass_events 0 (trace w'') = [1, 2] \<and> pass_events 1 (trace w'') = [1, 3]"
    by (simp add: eval_store unsub_env_def unsubscribe_def splice1_def subscribe_def)
  have "\<exists>wa. dispatch 6 unsub_env [] ?W inc_action = Done inc_action wa \<and>
      \<not> isDispatching wa \<and> closures wa = [(1, True), (2, False), (3, True)] \<and>
      (\<exists>w1 w''. reducer_call 5 unsub_env [] wa inc_action = Done (Num 2) w1 \<and>
         closures w1 = closures wa \<and> passes w1 = 1 \<and>
         final (dispatch 6 unsub_env [] wa inc_action) = Some w'')"
    by (simp add: eval_store reducer_call_def unsub_env_def unsubscribe_def splice1_def subscribe_def)
  then obtain wa w1 w'' where d1: "dispatch 6 unsub_env [] ?W inc_action = Done inc_action wa"
    and fa: "\<not> isDispatching wa" "closures wa = [(1, True), (2, False), (3, True)]"
    and r1: "reducer_call 5 unsub_env [] wa inc_action = Done (Num 2) w1"
    and f1: "closures w1 = closures wa" "passes w1 = 1"
    and d2: "final (dispatch 6 unsub_env [] wa inc_action) = Some w''"
    by blast
  note D = snapshot_semantics [where w = ?W and a = inc_action and n = 5 and E = unsub_env and st = "[]"
      and u = inc_action and w' = wa,
      THEN conjunct2, THEN conjunct2, THEN conjunct2, THEN conjunct2, THEN conjunct1, THEN mp]
  have "wf wa \<and>
      (\<exists>v w1 x. reducer_call 5 unsub_env [] ?W inc_action = Done v w1 \<and>
         protected (nextListeners w1) (committed w1 v) \<and>
         notify 5 unsub_env [] (passes w1) (nextListeners w1) 0 (committed w1 v) = Done x wa \<and>
         pass_events (passes w1) (trace wa) = registry w1)"
    by (rule D) (insert w nd d1, simp add: eval_nat_numeral)
  then have wa: "wf wa"
    by simp
  note L = snapshot_semantics [where w = wa and a = inc_action and n = 5 and E = unsub_env and st = "[]"
      and v = "Num 2" and ?w1.0 = w1 and w' = w'' and f = 2,
      THEN conjunct2, THEN conjunct2, THEN conjunct2, THEN conjunct2, THEN conjunct2, THEN conjunct2,
      THEN conjunct1, THEN mp]
  have "count_list (registry w1) 2 = count_list (closures w1) (2, True) \<and>
      count_list (pass_events (passes w1) (trace w'')) 2 \<le> count_list (closures w1) (2, True) \<and>
      (thrown (dispatch (Suc 5) unsub_env [] wa inc_action) = None \<longrightarrow>
         count_list (pass_events (passes w1) (trace w'')) 2 = count_list (closures w1) (2, True)) \<and>
      ((2, True) \<notin> set (closures w1) \<longrightarrow> 2 \<notin> set (pass_events (passes w1) (trace w'')))"
    by (rule L) (insert wa fa r1 d2, simp add: eval_nat_numeral)
  then have lp: "count_list (pass_events 1 (trace w'')) 2 \<le> 0" "2 \<notin> set (pass_events 1 (trace w''))"
    unfolding f1 fa by simp_all
  have l: "live ?W 1 2" "count_list (registry ?W) 2 = 1" "registry ?W = [1, 2]"
    by (simp_all add: live_def eval_store)
  obtain w2 where u: "unsubscribe ?W 1 = Inr w2"
    by (simp add: unsubscribe_def eval_store)
  note B = snapshot_semantics [where w = ?W and h = 1 and f = 2 and ?w1.0 = w2,
      THEN conjunct2, THEN conjunct2, THEN conjunct2, THEN conjunct2, THEN conjunct2, THEN conjunct2,
      THEN conjunct2, THEN conjunct2, THEN conjunct1, THEN mp]
  have "registry w2 = remove1 2 (registry ?W) \<and> wf w2 \<and> dead w2 1 \<and>
        count_list (closures w2) (2, True) + 1 = count_list (closures ?W) (2, True) \<and>
        (protected l ?W \<longrightarrow> protected l w2 \<and> arrays w2 l = arrays ?W l) \<and>
        (\<forall>h'. dead ?W h' \<longrightarrow> dead w2 h') \<and>
        (count_list (registry ?W) 2 = 1 \<longrightarrow> 2 \<notin> set (registry w2))" for l
    by (rule B) (insert w l(1) u, simp)
  with l have b: "registry w2 = [1] \<and> dead w2 1 \<and> 2 \<notin> set (registry w2)"
    by simp
  have x: "\<exists>wa w1 w''. dispatch 6 unsub_env [] ?W inc_action = Done inc_action wa \<and>
          wf wa \<and> \<not> isDispatching wa \<and> closures wa = [(1, True), (2, False), (3, True)] \<and>
          reducer_call 5 unsub_env [] wa inc_action = Done (Num 2) w1 \<and>
          closures w1 = closures wa \<and> passes w1 = 1 \<and>
          final (dispatch 6 unsub_env [] wa inc_action) = Some w'' \<and>
          count_list (pass_events 1 (trace w'')) 2 \<le> 0 \<and>
          2 \<notin> set (pass_events 1 (trace w''))"
    using d1 wa fa r1 f1 d2 lp by blast
  have y: "\<exists>w1. unsubscribe ?W 1 = Inr w1 \<and> registry w1 = [1] \<and> dead w1 1 \<and> 2 \<notin> set (registry w1)"
    using u b by blast
  have z: "map_option (\<lambda>w'. (pass_events 0 (trace w'), arrays w' 1, registry w'))
        (final (notify 5 unsub_env [] 0 1 0 ?P)) = Some ([1, 2], [1, 2], [1, 3])"
    using n r a by simp
  have dd: "map_option (\<lambda>w'. (pass_events 0 (trace w'), pass_events 1 (trace w')))
        (final (dispatch_all 6 unsub_env ?W [inc_action, inc_action])) = Some ([1, 2], [1, 3])"
    using d by auto
  show ?thesis
    by (intro conjI h z q lr t hf(1) hf(4) fr ft tt w nd valid_inc t5 dd x l(1) l(2) y)
qed

end
